theory Spec2Isabelle
  imports Main "HOL-Library.FSet" "HOL-Library.Sublist" "HOL-Library.AList"
    "HOL-Library.Char_ord" "HOL-Library.List_Lexorder"
begin

section \<open>Parsegen: the grammar model\<close>

text \<open>
  A shallow embedding of \<^verbatim>\<open>parsegen.py\<close>. A Python string is a \<open>string\<close>; each
  \<open>char\<close> stands for one code point below 256. Exceptions are values of the type
  \<open>error\<close>, carried in the left summand of a result.
\<close>

subsection \<open>Errors\<close>

text \<open>
  \<^verbatim>\<open>ParseError\<close> and \<^verbatim>\<open>GrammarError\<close> carry the message that
  \<^verbatim>\<open>ParsegenError.__init__\<close> formats; \<open>KeyError\<close> is Python's own, raised by a
  dictionary subscript with an absent key.
\<close>

datatype error = ParseError string | GrammarError string | KeyError string

definition ParsegenError :: "string \<Rightarrow> string \<Rightarrow> string" where
  "ParsegenError error_name s = ''parsegen: '' @ error_name @ '': '' @ s"

definition parse_error :: "string \<Rightarrow> error" where
  "parse_error s = ParseError (ParsegenError ''parse error'' s)"

definition grammar_error :: "string \<Rightarrow> error" where
  "grammar_error s = GrammarError (ParsegenError ''grammar error'' s)"

subsection \<open>Header and Symbol\<close>

record header =
  terminals :: "string \<rightharpoonup> string"
  options :: "string \<rightharpoonup> string"

definition get_option :: "header \<Rightarrow> string \<Rightarrow> string \<Rightarrow> string" where
  "get_option h opt dflt = (case options h opt of Some v \<Rightarrow> v | None \<Rightarrow> dflt)"

record symbol =
  expansions :: "string list list"
  nullable :: bool
  first :: "string fset"
  follow :: "string fset"

text \<open>\<^verbatim>\<open>Symbol.__init__\<close>\<close>

definition new_Symbol :: symbol where
  "new_Symbol = \<lparr>expansions = [], nullable = False, first = {||}, follow = {||}\<rparr>"

definition set_nullable :: "symbol \<Rightarrow> symbol" where
  "set_nullable s = s\<lparr>nullable := True\<rparr>"

definition add_expansion :: "symbol \<Rightarrow> string list \<Rightarrow> symbol" where
  "add_expansion s expansion =
     (let s1 = s\<lparr>expansions := expansions s @ [expansion]\<rparr>
      in if expansion = [] then set_nullable s1 else s1)"

definition is_nullable :: "symbol \<Rightarrow> bool" where
  "is_nullable s = (if length (expansions s) = 0 then True else nullable s)"

text \<open>
  The argument \<^verbatim>\<open>values\<close> of \<^verbatim>\<open>add_first\<close> and \<^verbatim>\<open>add_follow\<close> is a set or
  a list; \<^verbatim>\<open>set(values)\<close> makes a set of either.
\<close>

datatype py_values = VSet "string fset" | VList "string list"

fun set_of_values :: "py_values \<Rightarrow> string fset" where
  "set_of_values (VSet S) = S"
| "set_of_values (VList xs) = fset_of_list xs"

definition union_set_with_values :: "string fset \<Rightarrow> py_values \<Rightarrow> string fset" where
  "union_set_with_values set_ref vals = set_ref |\<union>| set_of_values vals"

definition add_first :: "symbol \<Rightarrow> py_values \<Rightarrow> symbol" where
  "add_first s vals = s\<lparr>first := union_set_with_values (first s) vals\<rparr>"

definition add_follow :: "symbol \<Rightarrow> py_values \<Rightarrow> symbol" where
  "add_follow s vals = s\<lparr>follow := union_set_with_values (follow s) vals\<rparr>"

text \<open>
  The dictionary of symbols is iterated, so it is an association list in insertion
  order; a symbol object is designated by its position in that list.
\<close>

type_synonym table = "(string \<times> symbol) list"

section \<open>Strings\<close>

text \<open>
  \<^verbatim>\<open>str.isspace\<close> on the code points below 256: the characters that
  \<^verbatim>\<open>str.strip()\<close> removes and \<^verbatim>\<open>str.split()\<close> splits at.
\<close>

definition isspace :: "char \<Rightarrow> bool" where
  "isspace c = ((of_char c :: nat) \<in> {9, 10, 11, 12, 13, 28, 29, 30, 31, 32, 133, 160})"

definition str_strip :: "string \<Rightarrow> string" where
  "str_strip s = rev (dropWhile isspace (rev (dropWhile isspace s)))"

text \<open>\<^verbatim>\<open>s.split()\<close>: the maximal runs of characters that are not whitespace.\<close>

fun split_ws_acc :: "string \<Rightarrow> string \<Rightarrow> string list" where
  "split_ws_acc [] cur = (if cur = [] then [] else [cur])"
| "split_ws_acc (c # cs) cur =
     (if isspace c then (if cur = [] then split_ws_acc cs [] else cur # split_ws_acc cs [])
      else split_ws_acc cs (cur @ [c]))"

definition split_ws :: "string \<Rightarrow> string list" where
  "split_ws s = split_ws_acc s []"

text \<open>
  \<^verbatim>\<open>s.split(sep)\<close> and \<^verbatim>\<open>s.partition(sep)\<close>, scanning from the left. The source
  passes the separators \<^verbatim>\<open>"%%"\<close>, \<^verbatim>\<open>"\n"\<close>, \<^verbatim>\<open>"#"\<close>, \<^verbatim>\<open>"="\<close> and
  \<^verbatim>\<open>":="\<close>, never an empty one.
\<close>

fun str_split_acc :: "string \<Rightarrow> string \<Rightarrow> string \<Rightarrow> string list" where
  "str_split_acc sep [] cur = [cur]"
| "str_split_acc sep (c # cs) cur =
     (if sep \<noteq> [] \<and> prefix sep (c # cs)
      then cur # str_split_acc sep (drop (length sep) (c # cs)) []
      else str_split_acc sep cs (cur @ [c]))"

definition str_split :: "string \<Rightarrow> string \<Rightarrow> string list" where
  "str_split sep s = str_split_acc sep s []"

fun str_partition_acc :: "string \<Rightarrow> string \<Rightarrow> string \<Rightarrow> string \<times> string \<times> string" where
  "str_partition_acc sep [] cur = (cur, [], [])"
| "str_partition_acc sep (c # cs) cur =
     (if prefix sep (c # cs) then (cur, sep, drop (length sep) (c # cs))
      else str_partition_acc sep cs (cur @ [c]))"

definition str_partition :: "string \<Rightarrow> string \<Rightarrow> string \<times> string \<times> string" where
  "str_partition sep s = str_partition_acc sep s []"

text \<open>The decimal digits of a natural number, as \<^verbatim>\<open>"{0}".format(n)\<close> writes them.\<close>

fun str_of_nat :: "nat \<Rightarrow> string" where
  "str_of_nat n =
     (if n < 10 then [char_of (48 + n)]
      else str_of_nat (n div 10) @ [char_of (48 + n mod 10)])"

declare str_of_nat.simps [simp del]

text \<open>\<^verbatim>\<open>sep.join(xs)\<close>\<close>

fun str_join :: "string \<Rightarrow> string list \<Rightarrow> string" where
  "str_join sep [] = []"
| "str_join sep [x] = x"
| "str_join sep (x # y # ys) = x @ sep @ str_join sep (y # ys)"

section \<open>Reading a grammar\<close>

definition processed_lines :: "string \<Rightarrow> string list" where
  "processed_lines text =
     filter (\<lambda>l. length l \<noteq> 0)
       (map (\<lambda>l. str_strip (fst (str_partition ''#'' l))) (str_split [CHR 0x0A] text))"

definition kv_with_sep :: "string \<Rightarrow> string \<Rightarrow> string \<times> string" where
  "kv_with_sep opt_line sep =
     (case str_partition sep opt_line of (key, _, val) \<Rightarrow> (str_strip key, str_strip val))"

definition add_opt_to_dict ::
  "string \<Rightarrow> (string \<rightharpoonup> string) \<Rightarrow> string \<Rightarrow> (string \<rightharpoonup> string)" where
  "add_opt_to_dict opt_line dict sep =
     (case kv_with_sep opt_line sep of (key, val) \<Rightarrow> dict(key \<mapsto> val))"

text \<open>The loop of \<^verbatim>\<open>_process_header\<close> over the processed lines.\<close>

fun process_header_lines ::
  "string list \<Rightarrow> (string \<rightharpoonup> string) \<Rightarrow> (string \<rightharpoonup> string) \<Rightarrow> header" where
  "process_header_lines [] terms opts = \<lparr>terminals = terms, options = opts\<rparr>"
| "process_header_lines (l # ls) terms opts =
     (if take 1 l = ''%''
      then process_header_lines ls terms (add_opt_to_dict (drop 1 l) opts ''='')
      else process_header_lines ls (add_opt_to_dict l terms ''='') opts)"

definition process_header :: "string \<Rightarrow> header" where
  "process_header text = process_header_lines (processed_lines text) Map.empty Map.empty"

text \<open>
  The loop of \<^verbatim>\<open>_process_expansions\<close>. Assigning to a key that the dictionary has
  keeps the key's place; a new key goes to the end.
\<close>

fun process_expansion_lines :: "string list \<Rightarrow> table \<Rightarrow> table" where
  "process_expansion_lines [] exps = exps"
| "process_expansion_lines (l # ls) exps =
     (case kv_with_sep l '':='' of (sym_name, exp) \<Rightarrow>
        let s = (case map_of exps sym_name of Some s \<Rightarrow> s | None \<Rightarrow> new_Symbol)
        in process_expansion_lines ls (AList.update sym_name (add_expansion s (split_ws exp)) exps))"

definition process_expansions :: "string \<Rightarrow> table" where
  "process_expansions text = process_expansion_lines (processed_lines text) []"

section \<open>The set computation engine\<close>

subsection \<open>Validation\<close>

text \<open>
  \<^verbatim>\<open>_initialise_expansions_state\<close>. Its innermost loop checks every token of one
  expansion; \<open>keys\<close> are the keys of the dictionary of symbols, which the loops
  never change.
\<close>

fun check_tokens :: "header \<Rightarrow> string list \<Rightarrow> string list \<Rightarrow> error + unit" where
  "check_tokens hdr keys [] = Inr ()"
| "check_tokens hdr keys (e # es) =
     (if \<not> (terminals hdr e \<noteq> None \<or> e \<in> set keys)
      then Inl (grammar_error (e @ '' is not defined as a terminal or nonterminal''))
      else check_tokens hdr keys es)"

text \<open>The loop over the expansions of one symbol.\<close>

fun init_expansions ::
  "header \<Rightarrow> string list \<Rightarrow> string list list \<Rightarrow> symbol \<Rightarrow> error + symbol" where
  "init_expansions hdr keys [] symbol = Inr symbol"
| "init_expansions hdr keys (exp # exps) symbol =
     (let symbol' = (if exp \<noteq> [] \<and> terminals hdr (hd exp) \<noteq> None
                     then add_first symbol (VList (take 1 exp)) else symbol)
      in case check_tokens hdr keys exp of
           Inl err \<Rightarrow> Inl err
         | Inr _ \<Rightarrow> init_expansions hdr keys exps symbol')"

text \<open>The loop over the symbols, in the order of the dictionary.\<close>

fun init_symbols :: "header \<Rightarrow> string list \<Rightarrow> table \<Rightarrow> error + table" where
  "init_symbols hdr keys [] = Inr []"
| "init_symbols hdr keys ((name, symbol) # rest) =
     (if terminals hdr name \<noteq> None
      then Inl (grammar_error (''expansion for nonterminal '' @ name))
      else case init_expansions hdr keys (expansions symbol) symbol of
             Inl err \<Rightarrow> Inl err
           | Inr symbol' \<Rightarrow>
               (case init_symbols hdr keys rest of
                  Inl err \<Rightarrow> Inl err
                | Inr rest' \<Rightarrow> Inr ((name, symbol') # rest')))"

definition initialise_expansions_state :: "header \<Rightarrow> table \<Rightarrow> error + table" where
  "initialise_expansions_state hdr tbl = init_symbols hdr (map fst tbl) tbl"

subsection \<open>One pass\<close>

text \<open>
  \<^verbatim>\<open>_each_expansion\<close> yields every expansion with its symbol; the symbol object is
  given by its position in the table. What the generator reads (the keys and the
  lists of expansions) does not change during a pass.
\<close>

definition each_expansion :: "table \<Rightarrow> (nat \<times> string list) list" where
  "each_expansion tbl =
     concat (map (\<lambda>i. map (\<lambda>expansion. (i, expansion)) (expansions (snd (tbl ! i))))
       [0..<length tbl])"

definition set_symbol :: "table \<Rightarrow> nat \<Rightarrow> symbol \<Rightarrow> table" where
  "set_symbol tbl i s = tbl[i := (fst (tbl ! i), s)]"

text \<open>
  The \<^verbatim>\<open>for e in expansion\<close> loop of \<^verbatim>\<open>_update_first_from_expansion\<close>, for the
  symbol at position \<open>i\<close>. The last component of the result tells whether the
  loop ran to its end without \<^verbatim>\<open>break\<close>, which is when its \<^verbatim>\<open>else\<close> clause runs.
  \<^verbatim>\<open>add_first\<close> changes neither \<open>expansions\<close> nor \<open>nullable\<close>, so
  \<^verbatim>\<open>other_sym.is_nullable()\<close> is the same before and after it.
\<close>

fun first_scan ::
  "header \<Rightarrow> nat \<Rightarrow> string list \<Rightarrow> table \<Rightarrow> bool \<Rightarrow> error + (table \<times> bool \<times> bool)" where
  "first_scan hdr i [] tbl changed = Inr (tbl, changed, True)"
| "first_scan hdr i (e # es) tbl changed =
     (if terminals hdr e \<noteq> None then Inr (tbl, changed, False)
      else case map_of tbl e of
             None \<Rightarrow> Inl (KeyError e)
           | Some other_sym \<Rightarrow>
               let symbol = snd (tbl ! i);
                   grow = \<not> first other_sym |\<subseteq>| first symbol;
                   tbl' = (if grow then set_symbol tbl i (add_first symbol (VSet (first other_sym)))
                           else tbl);
                   changed' = (if grow then True else changed)
               in if \<not> is_nullable other_sym then Inr (tbl', changed', False)
                  else first_scan hdr i es tbl' changed')"

definition update_first_from_expansion ::
  "header \<Rightarrow> table \<Rightarrow> nat \<Rightarrow> string list \<Rightarrow> error + (table \<times> bool)" where
  "update_first_from_expansion hdr tbl i expansion =
     (case first_scan hdr i expansion tbl False of
        Inl err \<Rightarrow> Inl err
      | Inr (tbl', changed, exhausted) \<Rightarrow>
          if exhausted \<and> \<not> is_nullable (snd (tbl' ! i))
          then Inr (set_symbol tbl' i (set_nullable (snd (tbl' ! i))), True)
          else Inr (tbl', changed))"

definition update_follow_from_expansion ::
  "header \<Rightarrow> string \<Rightarrow> symbol \<Rightarrow> string list \<Rightarrow> bool" where
  "update_follow_from_expansion hdr name symbol expansion = False"

text \<open>The \<^verbatim>\<open>for\<close> loop inside the \<^verbatim>\<open>while\<close> of \<^verbatim>\<open>_compute_sets_for_expansions\<close>.\<close>

fun sets_pass ::
  "header \<Rightarrow> (nat \<times> string list) list \<Rightarrow> table \<Rightarrow> bool \<Rightarrow> error + (table \<times> bool)" where
  "sets_pass hdr [] tbl changed = Inr (tbl, changed)"
| "sets_pass hdr ((i, expansion) # rest) tbl changed =
     (case update_first_from_expansion hdr tbl i expansion of
        Inl err \<Rightarrow> Inl err
      | Inr (tbl', r) \<Rightarrow>
          let s = update_follow_from_expansion hdr (fst (tbl' ! i)) (snd (tbl' ! i)) expansion
          in sets_pass hdr rest tbl' (changed \<or> r \<or> s))"

subsection \<open>The fixpoint loop\<close>

text \<open>
  The \<^verbatim>\<open>while changed\<close> loop. It is defined without a termination argument: a run
  that never ends has the value \<open>None\<close>.
\<close>

partial_function (option) fixpoint_loop :: "header \<Rightarrow> table \<Rightarrow> (error + table) option" where
  "fixpoint_loop hdr tbl =
     (case sets_pass hdr (each_expansion tbl) tbl False of
        Inl err \<Rightarrow> Some (Inl err)
      | Inr (tbl', changed) \<Rightarrow> if changed then fixpoint_loop hdr tbl' else Some (Inr tbl'))"

declare fixpoint_loop.simps [code]

definition compute_sets_for_expansions :: "header \<Rightarrow> table \<Rightarrow> (error + table) option" where
  "compute_sets_for_expansions hdr tbl =
     (case initialise_expansions_state hdr tbl of
        Inl err \<Rightarrow> Some (Inl err)
      | Inr tbl0 \<Rightarrow> fixpoint_loop hdr tbl0)"

section \<open>The entry point\<close>

definition parse_buffer :: "string \<Rightarrow> (error + header \<times> table \<times> string) option" where
  "parse_buffer buffer =
     (let sects = str_split ''%%'' buffer
      in case sects of
           [header_text, expansions_text, user_code] \<Rightarrow>
             (let hdr = process_header header_text;
                  exps = process_expansions expansions_text
              in case compute_sets_for_expansions hdr exps of
                   None \<Rightarrow> None
                 | Some (Inl err) \<Rightarrow> Some (Inl err)
                 | Some (Inr exps') \<Rightarrow> Some (Inr (hdr, exps', user_code)))
         | _ \<Rightarrow>
             Some (Inl (parse_error
               (''expected 3 sections but found '' @ str_of_nat (length sects)))))"

section \<open>The code emitter\<close>

text \<open>
  The output file is the list of the strings written to it, in order. Iterating a
  Python set visits each element once, in an order the source does not fix: the
  emitter takes that order as the parameter \<open>iter\<close>.
\<close>

abbreviation (input) TAB :: string where "TAB \<equiv> [CHR 0x09]"
abbreviation (input) NL :: string where "NL \<equiv> [CHR 0x0A]"

text \<open>\<^verbatim>\<open>s.center(width)\<close>, padding with spaces.\<close>

definition str_center :: "string \<Rightarrow> nat \<Rightarrow> string" where
  "str_center s width =
     (if width \<le> length s then s
      else let marg = width - length s;
               left = marg div 2 + (if odd marg \<and> odd width then 1 else 0)
           in replicate left CHR '' '' @ s @ replicate (marg - left) CHR '' '')"

definition write_section_header :: "string \<Rightarrow> string list \<Rightarrow> string list" where
  "write_section_header heading file =
     file @ [NL @ ''/'' @ replicate 77 CHR ''*'' @ NL,
             '' * '' @ str_center heading 73 @ '' *'' @ NL,
             '' '' @ replicate 77 CHR ''*'' @ ''/'' @ NL]"

definition prefixed_default :: "header \<Rightarrow> string option \<Rightarrow> string" where
  "prefixed_default hdr dflt =
     (let prefix = get_option hdr ''prefix'' ''yy''
      in case dflt of
           None \<Rightarrow> prefix
         | Some d \<Rightarrow> if d \<noteq> [] then prefix @ ''_'' @ d else prefix)"

fun get_counts_loop :: "header \<Rightarrow> string list list \<Rightarrow> nat \<Rightarrow> nat" where
  "get_counts_loop hdr [] node_count = node_count"
| "get_counts_loop hdr (expansion # rest) node_count =
     (let n = length (filter (\<lambda>e. terminals hdr e = None) expansion)
      in get_counts_loop hdr rest (if n > node_count then n else node_count))"

definition get_counts :: "header \<Rightarrow> symbol \<Rightarrow> nat" where
  "get_counts hdr symbol = get_counts_loop hdr (expansions symbol) 0"

definition write_symbol_function_begin ::
  "header \<Rightarrow> string \<Rightarrow> symbol \<Rightarrow> string list \<Rightarrow> string list" where
  "write_symbol_function_begin hdr name symbol file =
     (let node_count = get_counts hdr symbol;
          a0 = prefixed_default hdr None;
          a2 = get_option hdr ''token_type'' (prefixed_default hdr (Some ''token_t''))
      in file @
         [NL @ ''static '' @ a0 @ ''_node_t* '' @ name @ ''(void)'' @ NL @
          ''{'' @ NL @
          TAB @ a0 @ ''_node_t* nodes['' @ str_of_nat node_count @ ''];'' @ NL @
          TAB @ a2 @ '' token = '' @ a0 @ ''_peek_next_token();'' @ NL @
          TAB @ NL @
          TAB @ ''switch (token) {'' @ NL])"

text \<open>The \<^verbatim>\<open>case\<close> label for a terminal with emission value \<open>v\<close>.\<close>

definition case_text :: "string \<Rightarrow> string" where
  "case_text v = TAB @ ''case '' @ v @ '':'' @ NL"

text \<open>The loop writing one \<^verbatim>\<open>case\<close> label for each predicting terminal.\<close>

fun write_cases :: "header \<Rightarrow> string list \<Rightarrow> string list \<Rightarrow> error + string list" where
  "write_cases hdr [] file = Inr file"
| "write_cases hdr (term # terms) file =
     (case terminals hdr term of
        None \<Rightarrow> Inl (KeyError term)
      | Some v \<Rightarrow> write_cases hdr terms (file @ [case_text v]))"

text \<open>
  The texts that the loop over the tokens writes: for a terminal with emission value
  \<open>v\<close>, and for a nonterminal whose result goes to \<open>node_temp\<close>.
\<close>

definition eat_terminal_text :: "string \<Rightarrow> string" where
  "eat_terminal_text v =
     TAB @ TAB @ ''if (!eat_terminal('' @ v @ ''))'' @ NL @ TAB @ TAB @ TAB @ ''goto error;'' @ NL"

definition call_text :: "string \<Rightarrow> string \<Rightarrow> string" where
  "call_text node_temp sym_name = TAB @ TAB @ node_temp @ '' = '' @ sym_name @ ''();'' @ NL"

definition node_temp_text :: "nat \<Rightarrow> string" where
  "node_temp_text node = ''nodes['' @ str_of_nat node @ '']''"

text \<open>The loop over the tokens of the expansion; it returns the file and \<open>params\<close>.\<close>

fun write_tokens ::
  "header \<Rightarrow> string list \<Rightarrow> string list \<Rightarrow> string list \<Rightarrow> nat \<Rightarrow> string list \<times> string list" where
  "write_tokens hdr [] file params node = (file, params)"
| "write_tokens hdr (sym_name # rest) file params node =
     (case terminals hdr sym_name of
        Some v \<Rightarrow> write_tokens hdr rest (file @ [eat_terminal_text v]) (params @ [v]) node
      | None \<Rightarrow>
          write_tokens hdr rest (file @ [call_text (node_temp_text node) sym_name])
            (params @ [node_temp_text node]) (node + 1))"

text \<open>The two texts written after the loop over the tokens.\<close>

definition action_text :: "string \<Rightarrow> string list \<Rightarrow> string" where
  "action_text name params =
     TAB @ TAB @ ''token_action_'' @ name @ ''('' @ str_join '', '' params @ '');'' @ NL"

definition break_text :: string where
  "break_text = TAB @ TAB @ ''break;'' @ NL @ NL"

definition write_body_for_expansion ::
  "(string fset \<Rightarrow> string list) \<Rightarrow> header \<Rightarrow> table \<Rightarrow> string \<Rightarrow> string list \<Rightarrow> string list
     \<Rightarrow> error + string list" where
  "write_body_for_expansion iter hdr tbl name expansion file =
     (if expansion = [] then Inr file
      else
        case (if terminals hdr (hd expansion) \<noteq> None then Inr [hd expansion]
              else case map_of tbl (hd expansion) of
                     None \<Rightarrow> Inl (KeyError (hd expansion))
                   | Some s \<Rightarrow> Inr (iter (first s))) of
          Inl err \<Rightarrow> Inl err
        | Inr terms \<Rightarrow>
            (case write_cases hdr terms file of
               Inl err \<Rightarrow> Inl err
             | Inr file1 \<Rightarrow>
                 (case write_tokens hdr expansion file1 [] 0 of
                    (file2, params) \<Rightarrow>
                      Inr (file2 @ [action_text name params, break_text]))))"

definition write_symbol_function_end :: "header \<Rightarrow> string list \<Rightarrow> string list" where
  "write_symbol_function_end hdr file = file @ [TAB @ ''}'' @ NL @ ''}'' @ NL]"

text \<open>The two nested loops of \<^verbatim>\<open>_write_expansions_to_file\<close>.\<close>

fun write_bodies ::
  "(string fset \<Rightarrow> string list) \<Rightarrow> header \<Rightarrow> table \<Rightarrow> string \<Rightarrow> string list list
     \<Rightarrow> string list \<Rightarrow> error + string list" where
  "write_bodies iter hdr tbl name [] file = Inr file"
| "write_bodies iter hdr tbl name (expansion # rest) file =
     (case write_body_for_expansion iter hdr tbl name expansion file of
        Inl err \<Rightarrow> Inl err
      | Inr file' \<Rightarrow> write_bodies iter hdr tbl name rest file')"

fun write_symbols ::
  "(string fset \<Rightarrow> string list) \<Rightarrow> header \<Rightarrow> table \<Rightarrow> table \<Rightarrow> string list
     \<Rightarrow> error + string list" where
  "write_symbols iter hdr tbl [] file = Inr file"
| "write_symbols iter hdr tbl ((name, symbol) # rest) file =
     (case write_bodies iter hdr tbl name (expansions symbol)
             (write_symbol_function_begin hdr name symbol file) of
        Inl err \<Rightarrow> Inl err
      | Inr file' \<Rightarrow> write_symbols iter hdr tbl rest (write_symbol_function_end hdr file'))"

definition write_expansions_to_file ::
  "(string fset \<Rightarrow> string list) \<Rightarrow> header \<Rightarrow> table \<Rightarrow> string list \<Rightarrow> error + string list" where
  "write_expansions_to_file iter hdr tbl file =
     write_symbols iter hdr tbl tbl (write_section_header ''main automaton'' file)"

section \<open>Notions used in the statements\<close>

text \<open>
  The order in which the analysis moves a symbol: the expansions and the follow set
  stay, \<open>nullable\<close> may turn true, the first set may grow. A table is below
  another when they have the same keys in the same places and each symbol is below
  the one in its place.
\<close>

definition sym_le :: "symbol \<Rightarrow> symbol \<Rightarrow> bool" where
  "sym_le s s' \<longleftrightarrow>
     expansions s' = expansions s \<and> (nullable s \<longrightarrow> nullable s') \<and>
     first s |\<subseteq>| first s' \<and> follow s' = follow s"

definition entry_le :: "string \<times> symbol \<Rightarrow> string \<times> symbol \<Rightarrow> bool" where
  "entry_le p q \<longleftrightarrow> fst q = fst p \<and> sym_le (snd p) (snd q)"

definition tbl_le :: "table \<Rightarrow> table \<Rightarrow> bool" where
  "tbl_le t t' \<longleftrightarrow> list_all2 entry_le t t'"

text \<open>
  The measure of the fixpoint loop. With every first set inside a finite set \<open>U\<close>,
  the weight of a table counts the elements of \<open>U\<close> missing from each first set
  and the symbols not yet marked nullable; \<open>all_firsts\<close> is the union of the
  first sets of a table.
\<close>

definition bounded :: "string fset \<Rightarrow> table \<Rightarrow> bool" where
  "bounded U t \<longleftrightarrow> (\<forall>p \<in> set t. first (snd p) |\<subseteq>| U)"

definition sym_weight :: "string fset \<Rightarrow> symbol \<Rightarrow> nat" where
  "sym_weight U s = fcard (U |-| first s) + (if nullable s then 0 else 1)"

definition weight :: "string fset \<Rightarrow> table \<Rightarrow> nat" where
  "weight U t = sum_list (map (\<lambda>p. sym_weight U (snd p)) t)"

primrec all_firsts :: "table \<Rightarrow> string fset" where
  "all_firsts [] = {||}"
| "all_firsts (p # t) = first (snd p) |\<union>| all_firsts t"

text \<open>
  What validation establishes: every token of every expansion is a terminal name or
  a key of the table (\<open>closed\<close>), and no key is a terminal name. The two ways to
  fail are a \<open>name_collision\<close> and an \<open>undefined_reference\<close>.
\<close>

definition tokens_defined :: "header \<Rightarrow> string list \<Rightarrow> string list \<Rightarrow> bool" where
  "tokens_defined hdr keys x \<longleftrightarrow> (\<forall>e \<in> set x. terminals hdr e \<noteq> None \<or> e \<in> set keys)"

definition closed :: "header \<Rightarrow> table \<Rightarrow> bool" where
  "closed hdr t \<longleftrightarrow>
     (\<forall>p \<in> set t. \<forall>x \<in> set (expansions (snd p)). tokens_defined hdr (map fst t) x)"

definition name_collision :: "header \<Rightarrow> table \<Rightarrow> string \<Rightarrow> bool" where
  "name_collision hdr tbl n \<longleftrightarrow> n \<in> fst ` set tbl \<and> terminals hdr n \<noteq> None"

definition undefined_reference :: "header \<Rightarrow> table \<Rightarrow> string \<Rightarrow> bool" where
  "undefined_reference hdr tbl e \<longleftrightarrow>
     (\<exists>p \<in> set tbl. \<exists>x \<in> set (expansions (snd p)). e \<in> set x) \<and>
     terminals hdr e = None \<and> e \<notin> fst ` set tbl"

definition entry_valid :: "header \<Rightarrow> string list \<Rightarrow> string \<times> symbol \<Rightarrow> bool" where
  "entry_valid hdr keys p \<longleftrightarrow>
     terminals hdr (fst p) = None \<and> (\<forall>x \<in> set (expansions (snd p)). tokens_defined hdr keys x)"

text \<open>A small grammar for concrete checks: \<^verbatim>\<open>a := b a\<close>, \<^verbatim>\<open>a := X\<close>, \<^verbatim>\<open>b :=\<close>.\<close>

definition demo_header :: header where
  "demo_header = \<lparr>terminals = [''X'' \<mapsto> ''Tok_X''], options = Map.empty\<rparr>"

definition demo_table :: table where
  "demo_table =
     [(''a'', \<lparr>expansions = [[''b'', ''a''], [''X'']], nullable = False, first = {||}, follow = {||}\<rparr>),
      (''b'', \<lparr>expansions = [[]], nullable = True, first = {||}, follow = {||}\<rparr>)]"

text \<open>
  Monotone accumulation of one symbol: the sets grow, \<open>nullable\<close> does not turn
  false, the old expansions are the first of the new ones.
\<close>

definition accumulates :: "symbol \<Rightarrow> symbol \<Rightarrow> bool" where
  "accumulates s s' \<longleftrightarrow>
     first s |\<subseteq>| first s' \<and> follow s |\<subseteq>| follow s' \<and>
     (nullable s \<longrightarrow> nullable s') \<and> prefix (expansions s) (expansions s')"

text \<open>
  What \<^verbatim>\<open>_process_expansions\<close> guarantees of each symbol it makes: it has an
  expansion, it is marked nullable exactly when one of them is empty, and its sets are
  empty. No token of its expansions holds a space (\<open>spaceless\<close>, further down).
\<close>

definition built :: "symbol \<Rightarrow> bool" where
  "built s \<longleftrightarrow>
     expansions s \<noteq> [] \<and> (nullable s \<longleftrightarrow> [] \<in> set (expansions s)) \<and>
     first s = {||} \<and> follow s = {||}"

text \<open>
  Every expansion of the symbol begins with a terminal or with a nonterminal that
  the table \<open>F\<close> reports as not nullable.
\<close>

definition leads_non_nullable :: "header \<Rightarrow> table \<Rightarrow> symbol \<Rightarrow> bool" where
  "leads_non_nullable hdr F s \<longleftrightarrow>
     (\<forall>x \<in> set (expansions s). x \<noteq> [] \<and>
        (terminals hdr (hd x) \<noteq> None \<or> (\<exists>s'. map_of F (hd x) = Some s' \<and> \<not> is_nullable s')))"

text \<open>
  A buffer for concrete checks: the terminal \<^verbatim>\<open>X\<close> and the rules \<^verbatim>\<open>a := b X\<close>,
  \<^verbatim>\<open>b :=\<close>, \<^verbatim>\<open>c := a X\<close>; and the table that the analysis returns for it.
\<close>

definition demo_buffer :: string where
  "demo_buffer = ''X = Tok_X %% a := b X'' @ NL @ ''b :='' @ NL @ ''c := a X %% ''"

definition demo_result :: table where
  "demo_result =
     [(''a'', \<lparr>expansions = [[''b'', ''X'']], nullable = False, first = {||}, follow = {||}\<rparr>),
      (''b'', \<lparr>expansions = [[]], nullable = True, first = {||}, follow = {||}\<rparr>),
      (''c'', \<lparr>expansions = [[''a'', ''X'']], nullable = False, first = {||}, follow = {||}\<rparr>)]"

text \<open>A table on which a pass changes something: \<^verbatim>\<open>a := X\<close> with its first set, and \<^verbatim>\<open>d := a\<close>.\<close>

definition chain_table :: table where
  "chain_table =
     [(''a'', \<lparr>expansions = [[''X'']], nullable = False, first = {|''X''|}, follow = {||}\<rparr>),
      (''d'', \<lparr>expansions = [[''a'']], nullable = False, first = {||}, follow = {||}\<rparr>)]"

definition chain_result :: table where
  "chain_result =
     [(''a'', \<lparr>expansions = [[''X'']], nullable = False, first = {|''X''|}, follow = {||}\<rparr>),
      (''d'', \<lparr>expansions = [[''a'']], nullable = False, first = {|''X''|}, follow = {||}\<rparr>)]"

text \<open>
  The texts of one branch after its labels: those of the loop over the tokens, the
  call of the action and the \<^verbatim>\<open>break\<close>. A text is a label when it begins as
  \<open>case_text\<close> does.
\<close>

definition body_text :: "header \<Rightarrow> string \<Rightarrow> string list \<Rightarrow> string list" where
  "body_text hdr name expansion =
     (case write_tokens hdr expansion [] [] 0 of
        (texts, params) \<Rightarrow> texts @ [action_text name params, break_text])"

definition is_case_label :: "string \<Rightarrow> bool" where
  "is_case_label c = prefix (TAB @ ''case '') c"

text \<open>
  The mapping and the key under which a processed header line is stored: the first
  component tells the options from the terminals.
\<close>

definition header_key :: "string \<Rightarrow> bool \<times> string" where
  "header_key l =
     (if take 1 l = ''%'' then (True, fst (kv_with_sep (drop 1 l) ''=''))
      else (False, fst (kv_with_sep l ''='')))"

text \<open>A header text for concrete checks, of three lines.\<close>

definition demo_header_text :: string where
  "demo_header_text = ''FOO  # a = b'' @ NL @ '' % bar'' @ NL @ ''FOO = x''"

text \<open>
  The FIRST set in the words of the specification: the terminals that can appear as
  the first token of some derivation of a symbol. A symbol derives the empty sequence
  when all the tokens of one of its expansions do. A terminal can begin a symbol when,
  in one of the symbol's expansions, it stands after tokens that all derive the empty
  sequence, or can begin a nonterminal that stands there.
\<close>

inductive derives_empty :: "table \<Rightarrow> string \<Rightarrow> bool" for tbl :: table where
  "map_of tbl A = Some s \<Longrightarrow> x \<in> set (expansions s) \<Longrightarrow>
   \<forall>e \<in> set x. derives_empty tbl e \<Longrightarrow> derives_empty tbl A"

inductive can_begin :: "header \<Rightarrow> table \<Rightarrow> string \<Rightarrow> string \<Rightarrow> bool"
  for hdr :: header and tbl :: table where
  begins_with: "map_of tbl A = Some s \<Longrightarrow> pre @ t # post \<in> set (expansions s) \<Longrightarrow>
     \<forall>e \<in> set pre. derives_empty tbl e \<Longrightarrow> terminals hdr t \<noteq> None \<Longrightarrow> can_begin hdr tbl A t"
| begins_through: "map_of tbl A = Some s \<Longrightarrow> pre @ B # post \<in> set (expansions s) \<Longrightarrow>
     \<forall>e \<in> set pre. derives_empty tbl e \<Longrightarrow> can_begin hdr tbl B t \<Longrightarrow> can_begin hdr tbl A t"

definition spaceless :: "symbol \<Rightarrow> bool" where
  "spaceless s \<longleftrightarrow> (\<forall>x \<in> set (expansions s). \<forall>w \<in> set x. CHR '' '' \<notin> set w)"

section \<open>Which errors are raised\<close>

lemma check_tokens_err: "check_tokens hdr keys xs = Inl e \<Longrightarrow> \<exists>m. e = GrammarError m"
  by (induction xs) (auto simp: grammar_error_def split: if_splits)

lemma init_expansions_err: "init_expansions hdr keys xs s = Inl e \<Longrightarrow> \<exists>m. e = GrammarError m"
  by (induction xs arbitrary: s) (auto simp: Let_def split: sum.splits dest: check_tokens_err)

lemma init_symbols_err: "init_symbols hdr keys tbl = Inl e \<Longrightarrow> \<exists>m. e = GrammarError m"
  by (induction tbl) (auto simp: grammar_error_def split: sum.splits if_splits dest: init_expansions_err)

lemma first_scan_err: "first_scan hdr i xs tbl ch = Inl e \<Longrightarrow> \<exists>k. e = KeyError k"
  by (induction xs arbitrary: tbl ch) (auto simp: Let_def split: if_splits option.splits)

lemma update_first_err: "update_first_from_expansion hdr tbl i x = Inl e \<Longrightarrow> \<exists>k. e = KeyError k"
  by (auto simp: update_first_from_expansion_def split: sum.splits if_splits dest: first_scan_err)

lemma sets_pass_err: "sets_pass hdr ps tbl ch = Inl e \<Longrightarrow> \<exists>k. e = KeyError k"
  by (induction ps arbitrary: tbl ch) (auto simp: Let_def split: sum.splits dest: update_first_err)

lemmas fixpoint_loop_raw = fixpoint_loop.raw_induct [rotated 1, consumes 1, case_names body]

lemma fixpoint_loop_induct [consumes 1, case_names error stable changed]:
  assumes run: "fixpoint_loop hdr tbl = Some r"
    and err: "\<And>tbl e. sets_pass hdr (each_expansion tbl) tbl False = Inl e \<Longrightarrow> P tbl (Inl e)"
    and stable: "\<And>tbl tbl'. sets_pass hdr (each_expansion tbl) tbl False = Inr (tbl', False)
        \<Longrightarrow> P tbl (Inr tbl')"
    and changed: "\<And>tbl tbl' r. sets_pass hdr (each_expansion tbl) tbl False = Inr (tbl', True)
        \<Longrightarrow> fixpoint_loop hdr tbl' = Some r \<Longrightarrow> P tbl' r \<Longrightarrow> P tbl r"
  shows "P tbl r"
proof -
  have "h = hdr \<longrightarrow> fixpoint_loop hdr tbl = Some r \<longrightarrow> P tbl r"
    if "fixpoint_loop h tbl = Some r" for h
    using that
  proof (induction rule: fixpoint_loop_raw)
    case (body loop h t y)
    show ?case
    proof (intro impI)
      assume h: "h = hdr" and run': "fixpoint_loop hdr t = Some y"
      show "P t y"
      proof (cases "sets_pass hdr (each_expansion t) t False")
        case (Inl e)
        with body(2) h have "y = Inl e" by simp
        with Inl show ?thesis by (simp add: err)
      next
        case (Inr p)
        obtain t' ch where p: "p = (t', ch)" by (cases p)
        show ?thesis
        proof (cases ch)
          case True
          with body(2) h Inr p have l: "loop hdr t' = Some y" by simp
          from run' Inr p True have f: "fixpoint_loop hdr t' = Some y"
            by (subst (asm) fixpoint_loop.simps) simp
          from body(1) [OF l] f have "P t' y" by simp
          with Inr p True f show ?thesis by (auto intro: changed)
        next
          case False
          with body(2) h Inr p have "y = Inr t'" by simp
          with Inr p False show ?thesis by (simp add: stable)
        qed
      qed
    qed
  qed
  with run show ?thesis by simp
qed

lemma fixpoint_loop_err: "fixpoint_loop hdr tbl = Some r \<Longrightarrow> r = Inl e \<Longrightarrow> \<exists>k. e = KeyError k"
  by (induction arbitrary: e rule: fixpoint_loop_induct) (auto dest: sets_pass_err)

lemma compute_sets_not_parse_error:
  "compute_sets_for_expansions hdr tbl \<noteq> Some (Inl (ParseError m))"
  by (auto simp: compute_sets_for_expansions_def initialise_expansions_state_def
      split: sum.splits dest: init_symbols_err fixpoint_loop_err)

lemma case_three_other:
  "length xs \<noteq> 3 \<Longrightarrow> (case xs of [] \<Rightarrow> g | [a] \<Rightarrow> g | [a, b] \<Rightarrow> g | [a, b, c] \<Rightarrow> f a b c | a # b # c # d # r \<Rightarrow> g) = g"
  by (auto split: list.splits)

lemma parse_buffer_bad_sections:
  assumes "length (str_split ''%%'' buffer) \<noteq> 3"
  shows "parse_buffer buffer = Some (Inl (parse_error (''expected 3 sections but found ''
          @ str_of_nat (length (str_split ''%%'' buffer)))))"
  unfolding parse_buffer_def Let_def
  by (rule case_three_other [OF assms])

lemma parse_buffer_three_sections:
  assumes "str_split ''%%'' buffer = [a, b, c]"
  shows "parse_buffer buffer =
    (case compute_sets_for_expansions (process_header a) (process_expansions b) of
                   None \<Rightarrow> None
                 | Some (Inl err) \<Rightarrow> Some (Inl err)
                 | Some (Inr exps') \<Rightarrow> Some (Inr (process_header a, exps', c)))"
  unfolding parse_buffer_def Let_def assms by simp

text \<open>
  C2: \<^verbatim>\<open>parse_buffer\<close> raises a \<^verbatim>\<open>ParseError\<close> exactly when splitting the buffer
  at \<^verbatim>\<open>%%\<close> does not give three parts. The message then names the expected count,
  3, and the number of parts found; with three parts no \<^verbatim>\<open>ParseError\<close> is raised.
\<close>

theorem parse_buffer_structural_error:
  "(length (str_split ''%%'' buffer) \<noteq> 3 \<longrightarrow>
      parse_buffer buffer =
        Some (Inl (ParseError (''parsegen: parse error: expected 3 sections but found ''
          @ str_of_nat (length (str_split ''%%'' buffer))))))
   \<and> (length (str_split ''%%'' buffer) = 3 \<longrightarrow>
        (\<forall>msg. parse_buffer buffer \<noteq> Some (Inl (ParseError msg))))"
proof (intro conjI impI allI)
  assume "length (str_split ''%%'' buffer) \<noteq> 3"
  then show "parse_buffer buffer =
      Some (Inl (ParseError (''parsegen: parse error: expected 3 sections but found ''
          @ str_of_nat (length (str_split ''%%'' buffer)))))"
    using parse_buffer_bad_sections [of buffer] by (simp add: parse_error_def ParsegenError_def)
next
  fix msg assume "length (str_split ''%%'' buffer) = 3"
  then obtain a b c where "str_split ''%%'' buffer = [a, b, c]"
    by (auto simp: length_Suc_conv numeral_3_eq_3)
  then have "parse_buffer buffer =
    (case compute_sets_for_expansions (process_header a) (process_expansions b) of
                   None \<Rightarrow> None
                 | Some (Inl err) \<Rightarrow> Some (Inl err)
                 | Some (Inr exps') \<Rightarrow> Some (Inr (process_header a, exps', c)))"
    by (rule parse_buffer_three_sections)
  then show "parse_buffer buffer \<noteq> Some (Inl (ParseError msg))"
    using compute_sets_not_parse_error [of "process_header a" "process_expansions b" msg]
    by (auto split: option.splits sum.splits)
qed

theorem parse_buffer_structural_error_witness:
  "length (str_split ''%%'' '' %% '') \<noteq> 3
   \<and> parse_buffer '' %% '' =
       Some (Inl (ParseError ''parsegen: parse error: expected 3 sections but found 2''))
   \<and> length (str_split ''%%'' '' %% %% '') = 3
   \<and> (\<forall>msg. parse_buffer '' %% %% '' \<noteq> Some (Inl (ParseError msg)))"
proof -
  have two: "length (str_split ''%%'' '' %% '') = 2" by code_simp
  have three: "length (str_split ''%%'' '' %% %% '') = 3" by code_simp
  have digits: "str_of_nat 2 = ''2''" by code_simp
  show ?thesis
    using parse_buffer_structural_error [of "'' %% ''"]
      parse_buffer_structural_error [of "'' %% %% ''"] two three digits
    by simp
qed

section \<open>What the emitter writes\<close>

lemma write_bodies_skip_empty:
  "write_bodies iter hdr tbl name exps file =
   write_bodies iter hdr tbl name (filter (\<lambda>x. x \<noteq> []) exps) file"
  by (induction exps arbitrary: "file") (auto simp: write_body_for_expansion_def split: sum.splits)

text \<open>
  C10: for an empty expansion the emitter writes nothing, so the text written for the
  expansions of a symbol is the text written for its non-empty expansions alone.
\<close>

theorem epsilon_expansion_writes_nothing:
  "write_body_for_expansion iter hdr tbl name [] out = Inr out
   \<and> write_bodies iter hdr tbl name exps out =
       write_bodies iter hdr tbl name (filter (\<lambda>x. x \<noteq> []) exps) out"
  using write_bodies_skip_empty [of iter hdr tbl name exps out]
  by (simp add: write_body_for_expansion_def)

section \<open>Symbols only accumulate\<close>

lemma sym_le_refl: "sym_le s s" by (simp add: sym_le_def)

lemma sym_le_trans: "sym_le a b \<Longrightarrow> sym_le b c \<Longrightarrow> sym_le a c"
  by (auto simp: sym_le_def)

lemma sym_le_antisym: "sym_le a b \<Longrightarrow> sym_le b a \<Longrightarrow> a = b"
  by (cases a, cases b) (auto simp: sym_le_def)

lemma entry_le_refl: "entry_le p p" by (simp add: entry_le_def sym_le_refl)

lemma entry_le_trans: "entry_le a b \<Longrightarrow> entry_le b c \<Longrightarrow> entry_le a c"
  by (auto simp: entry_le_def intro: sym_le_trans)

lemma entry_le_antisym: "entry_le a b \<Longrightarrow> entry_le b a \<Longrightarrow> a = b"
  by (cases a, cases b) (auto simp: entry_le_def dest: sym_le_antisym)

lemma tbl_le_refl: "tbl_le t t"
  by (simp add: tbl_le_def list_all2_refl entry_le_refl)

lemma tbl_le_trans: "tbl_le a b \<Longrightarrow> tbl_le b c \<Longrightarrow> tbl_le a c"
  unfolding tbl_le_def by (erule (1) list_all2_trans [rotated]) (rule entry_le_trans)

lemma tbl_le_antisym: "tbl_le a b \<Longrightarrow> tbl_le b a \<Longrightarrow> a = b"
  unfolding tbl_le_def by (rule list_all2_antisym [of entry_le entry_le]) (auto dest: entry_le_antisym)

lemma tbl_le_length: "tbl_le t t' \<Longrightarrow> length t' = length t"
  by (simp add: tbl_le_def list_all2_lengthD)

lemma tbl_le_nth: "tbl_le t t' \<Longrightarrow> i < length t \<Longrightarrow> entry_le (t ! i) (t' ! i)"
  by (simp add: tbl_le_def list_all2_nthD)

lemma tbl_le_keys: "tbl_le t t' \<Longrightarrow> map fst t' = map fst t"
  unfolding tbl_le_def by (induction rule: list_all2_induct) (auto simp: entry_le_def)

lemma tbl_le_map_of:
  "tbl_le t t' \<Longrightarrow> map_of t k = Some s \<Longrightarrow> \<exists>s'. map_of t' k = Some s' \<and> sym_le s s'"
  unfolding tbl_le_def
  by (induction rule: list_all2_induct) (auto simp: entry_le_def split: if_splits)

lemma tbl_le_set_symbol:
  assumes "sym_le (snd (t ! i)) s"
  shows "tbl_le t (set_symbol t i s)"
proof -
  have "entry_le (t ! j) (set_symbol t i s ! j)" if "j < length t" for j
  proof (cases "j = i")
    case True
    with that assms show ?thesis by (simp add: set_symbol_def entry_le_def)
  next
    case False
    then show ?thesis by (simp add: set_symbol_def entry_le_refl)
  qed
  then show ?thesis
    by (simp add: tbl_le_def list_all2_conv_all_nth set_symbol_def)
qed

lemma tbl_le_step_neq:
  "tbl_le t t1 \<Longrightarrow> tbl_le t1 t2 \<Longrightarrow> t2 = t \<Longrightarrow> t1 = t"
  by (auto dest: tbl_le_antisym)

lemma sym_le_add_first: "sym_le s (add_first s vals)"
  by (simp add: sym_le_def add_first_def union_set_with_values_def)

lemma sym_le_set_nullable: "sym_le s (set_nullable s)"
  by (simp add: sym_le_def set_nullable_def)

lemma sym_le_is_nullable: "sym_le s s' \<Longrightarrow> is_nullable s \<Longrightarrow> is_nullable s'"
  by (auto simp: sym_le_def is_nullable_def)

lemma set_symbol_neq:
  "i < length t \<Longrightarrow> s \<noteq> snd (t ! i) \<Longrightarrow> set_symbol t i s \<noteq> t"
  unfolding set_symbol_def
  by (metis nth_list_update_eq snd_conv)

lemma first_scan_le:
  "first_scan hdr i xs t ch = Inr (t', ch', ex) \<Longrightarrow> i < length t \<Longrightarrow>
   tbl_le t t' \<and> (ch' = (ch \<or> t' \<noteq> t))"
proof (induction xs arbitrary: t ch)
  case Nil
  then show ?case by (simp add: tbl_le_refl)
next
  case (Cons e es)
  show ?case
  proof (cases "terminals hdr e \<noteq> None")
    case True
    with Cons.prems show ?thesis by (auto simp: tbl_le_refl)
  next
    case False
    with Cons.prems obtain other_sym where o: "map_of t e = Some other_sym"
      by (auto split: option.splits)
    define symbol where "symbol = snd (t ! i)"
    define grow where "grow = (\<not> first other_sym |\<subseteq>| first symbol)"
    define t1 where "t1 = (if grow then set_symbol t i (add_first symbol (VSet (first other_sym))) else t)"
    define ch1 where "ch1 = (if grow then True else ch)"
    have le1: "tbl_le t t1"
      by (simp add: t1_def symbol_def tbl_le_refl tbl_le_set_symbol sym_le_add_first)
    have "add_first symbol (VSet (first other_sym)) \<noteq> symbol" if grow
    proof
      assume "add_first symbol (VSet (first other_sym)) = symbol"
      then have "first (add_first symbol (VSet (first other_sym))) = first symbol" by simp
      with that show False by (auto simp: grow_def add_first_def union_set_with_values_def)
    qed
    then have ch1: "ch1 = (ch \<or> t1 \<noteq> t)"
      using Cons.prems(2) by (auto simp: ch1_def t1_def symbol_def dest: set_symbol_neq)
    have len1: "i < length t1" using le1 Cons.prems(2) by (simp add: tbl_le_length)
    from Cons.prems(1) False o
    have r: "(if \<not> is_nullable other_sym then Inr (t1, ch1, False)
              else first_scan hdr i es t1 ch1) = Inr (t', ch', ex)"
      unfolding symbol_def grow_def t1_def ch1_def
      by (simp add: Let_def split del: if_split cong: if_cong)
    show ?thesis
    proof (cases "is_nullable other_sym")
      case False
      with r le1 ch1 show ?thesis by auto
    next
      case True
      with r have "first_scan hdr i es t1 ch1 = Inr (t', ch', ex)" by simp
      from Cons.IH [OF this len1] have le2: "tbl_le t1 t'" and ch2: "ch' = (ch1 \<or> t' \<noteq> t1)" by auto
      from le1 le2 have "tbl_le t t'" by (rule tbl_le_trans)
      moreover have "ch' = (ch \<or> t' \<noteq> t)"
        using ch1 ch2 tbl_le_step_neq [OF le1 le2] by blast
      ultimately show ?thesis by simp
    qed
  qed
qed

lemma update_first_le:
  assumes "update_first_from_expansion hdr t i x = Inr (t', r)" and "i < length t"
  shows "tbl_le t t' \<and> (r = (t' \<noteq> t))"
proof -
  from assms(1) obtain t1 ch1 ex where
    scan: "first_scan hdr i x t False = Inr (t1, ch1, ex)"
    by (auto simp: update_first_from_expansion_def split: sum.splits)
  from first_scan_le [OF scan assms(2)] have le1: "tbl_le t t1" and ch1: "ch1 = (t1 \<noteq> t)" by auto
  have len1: "i < length t1" using le1 assms(2) by (simp add: tbl_le_length)
  show ?thesis
  proof (cases "ex \<and> \<not> is_nullable (snd (t1 ! i))")
    case True
    with assms(1) scan have t': "t' = set_symbol t1 i (set_nullable (snd (t1 ! i)))" and r: r
      by (auto simp: update_first_from_expansion_def)
    from True have "set_nullable (snd (t1 ! i)) \<noteq> snd (t1 ! i)"
      by (auto simp: is_nullable_def set_nullable_def split: if_splits)
         (metis symbol.select_convs(2) symbol.surjective symbol.update_convs(2))
    with len1 have ne: "t' \<noteq> t1" unfolding t' by (rule set_symbol_neq)
    have le2: "tbl_le t1 t'" unfolding t' by (rule tbl_le_set_symbol) (rule sym_le_set_nullable)
    from le1 le2 have "tbl_le t t'" by (rule tbl_le_trans)
    moreover have "t' \<noteq> t" using tbl_le_step_neq [OF le1 le2] ne by blast
    ultimately show ?thesis using r by simp
  next
    case False
    with assms(1) scan have "t' = t1" "r = ch1"
      by (auto simp: update_first_from_expansion_def)
    with le1 ch1 show ?thesis by simp
  qed
qed

lemma sets_pass_le:
  "sets_pass hdr ps t ch = Inr (t', ch') \<Longrightarrow> \<forall>p \<in> set ps. fst p < length t \<Longrightarrow>
   tbl_le t t' \<and> (ch' = (ch \<or> t' \<noteq> t))"
proof (induction ps arbitrary: t ch)
  case Nil
  then show ?case by (simp add: tbl_le_refl)
next
  case (Cons p ps)
  obtain i x where p: "p = (i, x)" by (cases p)
  from Cons.prems(1) p obtain t1 r where
    u: "update_first_from_expansion hdr t i x = Inr (t1, r)"
    and rest: "sets_pass hdr ps t1 (ch \<or> r) = Inr (t', ch')"
    by (auto simp: update_follow_from_expansion_def split: sum.splits)
  from Cons.prems(2) p have i: "i < length t" by simp
  from update_first_le [OF u i] have le1: "tbl_le t t1" and r: "r = (t1 \<noteq> t)" by auto
  have "\<forall>p \<in> set ps. fst p < length t1"
    using Cons.prems(2) le1 by (simp add: tbl_le_length)
  from Cons.IH [OF rest this] have le2: "tbl_le t1 t'" and c: "ch' = ((ch \<or> r) \<or> t' \<noteq> t1)" by auto
  from le1 le2 have "tbl_le t t'" by (rule tbl_le_trans)
  moreover have "ch' = (ch \<or> t' \<noteq> t)"
    using r c tbl_le_step_neq [OF le1 le2] by blast
  ultimately show ?case by simp
qed

lemma each_expansion_in_range: "\<forall>p \<in> set (each_expansion t). fst p < length t"
  by (auto simp: each_expansion_def)

lemma pass_le:
  "sets_pass hdr (each_expansion t) t False = Inr (t', ch) \<Longrightarrow> tbl_le t t' \<and> (ch = (t' \<noteq> t))"
  using sets_pass_le [OF _ each_expansion_in_range] by fastforce

section \<open>The fixpoint loop terminates\<close>

lemma bounded_weaken: "bounded U t \<Longrightarrow> U |\<subseteq>| V \<Longrightarrow> bounded V t"
  by (auto simp: bounded_def)

lemma bounded_all_firsts: "bounded (all_firsts t) t"
proof (induction t)
  case Nil
  show ?case by (simp add: bounded_def)
next
  case (Cons p t)
  have "bounded (all_firsts (p # t)) t"
    by (rule bounded_weaken [OF Cons.IH]) simp
  then show ?case by (simp add: bounded_def)
qed

lemma sym_weight_mono: "sym_le s s' \<Longrightarrow> sym_weight U s' \<le> sym_weight U s"
proof -
  assume le: "sym_le s s'"
  then have "U |-| first s' |\<subseteq>| U |-| first s" by (auto simp: sym_le_def)
  then have "fcard (U |-| first s') \<le> fcard (U |-| first s)" by (rule fcard_mono)
  with le show ?thesis by (auto simp: sym_weight_def sym_le_def)
qed

lemma sym_weight_strict:
  assumes le: "sym_le s s'" and ne: "s' \<noteq> s" and b: "first s' |\<subseteq>| U"
  shows "sym_weight U s' < sym_weight U s"
proof (cases "first s' = first s")
  case True
  with le ne have "nullable s'" "\<not> nullable s"
    by (cases s, cases s', auto simp: sym_le_def)+
  with True show ?thesis by (simp add: sym_weight_def)
next
  case False
  with le have "first s |\<subset>| first s'" by (auto simp: sym_le_def)
  with b have "U |-| first s' |\<subset>| U |-| first s" by auto
  then have "fcard (U |-| first s') < fcard (U |-| first s)" by (rule pfsubset_fcard_mono)
  with le show ?thesis by (auto simp: sym_weight_def sym_le_def)
qed

lemma weight_mono: "tbl_le t t' \<Longrightarrow> weight U t' \<le> weight U t"
  unfolding tbl_le_def weight_def
  by (induction rule: list_all2_induct)
     (auto simp: entry_le_def intro: add_mono sym_weight_mono)

lemma weight_strict:
  "tbl_le t t' \<Longrightarrow> t' \<noteq> t \<Longrightarrow> bounded U t' \<Longrightarrow> weight U t' < weight U t"
  unfolding tbl_le_def
proof (induction rule: list_all2_induct)
  case Nil
  then show ?case by simp
next
  case (Cons p t q t')
  from Cons.hyps(1) have le: "sym_le (snd p) (snd q)" and k: "fst q = fst p"
    by (auto simp: entry_le_def)
  from Cons.prems(2) have b: "first (snd q) |\<subseteq>| U" and b': "bounded U t'"
    by (auto simp: bounded_def)
  have rest: "weight U t' \<le> weight U t"
    using Cons.hyps(2) by (simp add: weight_mono tbl_le_def)
  show ?case
  proof (cases "q = p")
    case True
    with Cons.prems(1) have "t' \<noteq> t" by simp
    from Cons.IH [OF this b'] True show ?thesis by (simp add: weight_def)
  next
    case False
    with k have "snd q \<noteq> snd p" by (cases p, cases q) auto
    from sym_weight_strict [OF le this b] rest show ?thesis by (simp add: weight_def)
  qed
qed

lemma set_symbol_keys: "map fst (set_symbol t i s) = map fst t"
  by (simp add: set_symbol_def map_update) (metis fst_conv list_update_beyond list_update_id map_update not_le_imp_less nth_map)

lemma bounded_set_symbol:
  "bounded U t \<Longrightarrow> first s |\<subseteq>| U \<Longrightarrow> bounded U (set_symbol t i s)"
  unfolding bounded_def set_symbol_def
  by (auto dest!: set_update_subset_insert [THEN subsetD])

lemma bounded_nth: "bounded U t \<Longrightarrow> i < length t \<Longrightarrow> first (snd (t ! i)) |\<subseteq>| U"
  by (simp add: bounded_def)

lemma bounded_map_of: "bounded U t \<Longrightarrow> map_of t e = Some s \<Longrightarrow> first s |\<subseteq>| U"
  by (metis bounded_def map_of_SomeD snd_conv)

lemma first_scan_bounded:
  "first_scan hdr i xs t ch = Inr (t', ch', ex) \<Longrightarrow> i < length t \<Longrightarrow> bounded U t \<Longrightarrow> bounded U t'"
proof (induction xs arbitrary: t ch)
  case Nil
  then show ?case by simp
next
  case (Cons e es)
  show ?case
  proof (cases "terminals hdr e \<noteq> None")
    case True
    with Cons.prems show ?thesis by auto
  next
    case False
    with Cons.prems obtain other_sym where o: "map_of t e = Some other_sym"
      by (auto split: option.splits)
    define t1 where "t1 = (if \<not> first other_sym |\<subseteq>| first (snd (t ! i))
        then set_symbol t i (add_first (snd (t ! i)) (VSet (first other_sym))) else t)"
    define ch1 where "ch1 = (if \<not> first other_sym |\<subseteq>| first (snd (t ! i)) then True else ch)"
    have "first (add_first (snd (t ! i)) (VSet (first other_sym))) |\<subseteq>| U"
      using bounded_nth [OF Cons.prems(3,2)] bounded_map_of [OF Cons.prems(3) o]
      by (simp add: add_first_def union_set_with_values_def)
    then have b1: "bounded U t1"
      using Cons.prems(3) by (simp add: t1_def bounded_set_symbol)
    have len1: "i < length t1" using Cons.prems(2) by (simp add: t1_def set_symbol_def)
    from Cons.prems(1) False o
    have r: "(if \<not> is_nullable other_sym then Inr (t1, ch1, False)
              else first_scan hdr i es t1 ch1) = Inr (t', ch', ex)"
      unfolding t1_def ch1_def
      by (simp add: Let_def split del: if_split cong: if_cong)
    show ?thesis
    proof (cases "is_nullable other_sym")
      case False
      with r b1 show ?thesis by auto
    next
      case True
      with r have "first_scan hdr i es t1 ch1 = Inr (t', ch', ex)" by simp
      from Cons.IH [OF this len1 b1] show ?thesis .
    qed
  qed
qed

lemma update_first_bounded:
  assumes "update_first_from_expansion hdr t i x = Inr (t', r)" and "i < length t" and "bounded U t"
  shows "bounded U t'"
proof -
  from assms(1) obtain t1 ch1 ex where
    scan: "first_scan hdr i x t False = Inr (t1, ch1, ex)"
    by (auto simp: update_first_from_expansion_def split: sum.splits)
  from first_scan_bounded [OF scan assms(2,3)] have b1: "bounded U t1" .
  have len1: "i < length t1"
    using first_scan_le [OF scan assms(2), THEN conjunct1] assms(2) by (simp add: tbl_le_length)
  have "bounded U (set_symbol t1 i (set_nullable (snd (t1 ! i))))"
    using b1 bounded_nth [OF b1 len1] by (simp add: bounded_set_symbol set_nullable_def)
  with assms(1) scan b1 show ?thesis
    by (auto simp: update_first_from_expansion_def split: if_splits)
qed

lemma sets_pass_bounded:
  "sets_pass hdr ps t ch = Inr (t', ch') \<Longrightarrow> \<forall>p \<in> set ps. fst p < length t \<Longrightarrow>
   bounded U t \<Longrightarrow> bounded U t'"
proof (induction ps arbitrary: t ch)
  case Nil
  then show ?case by simp
next
  case (Cons p ps)
  obtain i x where p: "p = (i, x)" by (cases p)
  from Cons.prems(1) p obtain t1 r where
    u: "update_first_from_expansion hdr t i x = Inr (t1, r)"
    and rest: "sets_pass hdr ps t1 (ch \<or> r) = Inr (t', ch')"
    by (auto simp: update_follow_from_expansion_def split: sum.splits)
  from Cons.prems(2) p have i: "i < length t" by simp
  from update_first_le [OF u i] have le1: "tbl_le t t1" by simp
  have "\<forall>p \<in> set ps. fst p < length t1"
    using Cons.prems(2) le1 by (simp add: tbl_le_length)
  from Cons.IH [OF rest this update_first_bounded [OF u i Cons.prems(3)]] show ?case .
qed

lemma fixpoint_loop_total:
  "bounded U t \<Longrightarrow> \<exists>r. fixpoint_loop hdr t = Some r"
proof (induction "weight U t" arbitrary: t rule: less_induct)
  case less
  show ?case
  proof (cases "sets_pass hdr (each_expansion t) t False")
    case (Inl e)
    then show ?thesis by (subst fixpoint_loop.simps) simp
  next
    case (Inr p)
    obtain t' ch where p: "p = (t', ch)" by (cases p)
    show ?thesis
    proof (cases ch)
      case False
      with Inr p show ?thesis by (subst fixpoint_loop.simps) simp
    next
      case True
      from pass_le [OF Inr [unfolded p]] True have le: "tbl_le t t'" and ne: "t' \<noteq> t" by auto
      have b: "bounded U t'"
        using sets_pass_bounded [OF Inr [unfolded p] each_expansion_in_range less.prems] .
      from weight_strict [OF le ne b] have "weight U t' < weight U t" .
      from less.hyps [OF this b] obtain r where "fixpoint_loop hdr t' = Some r" ..
      with Inr p True show ?thesis by (subst fixpoint_loop.simps) simp
    qed
  qed
qed

section \<open>Validation\<close>

lemma check_tokens_Inr: "(\<exists>u. check_tokens hdr keys x = Inr u) = tokens_defined hdr keys x"
  by (induction x) (auto simp: tokens_defined_def)

lemma check_tokens_Inl:
  "check_tokens hdr keys x = Inl err \<Longrightarrow>
   \<exists>e \<in> set x. terminals hdr e = None \<and> e \<notin> set keys \<and>
     err = grammar_error (e @ '' is not defined as a terminal or nonterminal'')"
  by (induction x) (auto split: if_splits)

lemma init_expansions_Inr:
  "init_expansions hdr keys xs s = Inr s' \<Longrightarrow>
   sym_le s s' \<and> (\<forall>x \<in> set xs. tokens_defined hdr keys x)"
proof (induction xs arbitrary: s)
  case Nil
  then show ?case by (simp add: sym_le_refl)
next
  case (Cons x xs)
  define s1 where "s1 = (if x \<noteq> [] \<and> terminals hdr (hd x) \<noteq> None
                     then add_first s (VList (take 1 x)) else s)"
  have le1: "sym_le s s1" by (simp add: s1_def sym_le_refl sym_le_add_first)
  from Cons.prems obtain u where c: "check_tokens hdr keys x = Inr u"
    and r: "init_expansions hdr keys xs s1 = Inr s'"
    unfolding s1_def by (auto simp: Let_def split: sum.splits)
  from c have "tokens_defined hdr keys x" using check_tokens_Inr by blast
  with Cons.IH [OF r] le1 show ?case by (auto intro: sym_le_trans)
qed

lemma init_expansions_Inl:
  "init_expansions hdr keys xs s = Inl err \<Longrightarrow>
   \<exists>x \<in> set xs. \<exists>e \<in> set x. terminals hdr e = None \<and> e \<notin> set keys \<and>
     err = grammar_error (e @ '' is not defined as a terminal or nonterminal'')"
proof (induction xs arbitrary: s)
  case Nil
  then show ?case by simp
next
  case (Cons x xs)
  show ?case
  proof (cases "check_tokens hdr keys x")
    case (Inl e)
    with Cons.prems have "e = err" by (simp add: Let_def)
    with Inl check_tokens_Inl [of hdr keys x err] show ?thesis by auto
  next
    case (Inr u)
    with Cons.prems obtain s1 where "init_expansions hdr keys xs s1 = Inl err"
      by (auto simp: Let_def)
    from Cons.IH [OF this] show ?thesis by auto
  qed
qed

lemma init_expansions_total:
  "\<forall>x \<in> set xs. tokens_defined hdr keys x \<Longrightarrow> \<exists>s'. init_expansions hdr keys xs s = Inr s'"
proof (induction xs arbitrary: s)
  case Nil
  then show ?case by simp
next
  case (Cons x xs)
  then obtain u where "check_tokens hdr keys x = Inr u"
    using check_tokens_Inr [of hdr keys x] by auto
  with Cons show ?case by (simp add: Let_def)
qed

lemma init_symbols_Inr:
  "init_symbols hdr keys t = Inr t' \<Longrightarrow> tbl_le t t' \<and> (\<forall>p \<in> set t. entry_valid hdr keys p)"
proof (induction t arbitrary: t')
  case Nil
  then show ?case by (simp add: tbl_le_refl)
next
  case (Cons p t)
  obtain name symbol where p: "p = (name, symbol)" by (cases p)
  from Cons.prems p obtain symbol' rest' where
    n: "terminals hdr name = None"
    and e: "init_expansions hdr keys (expansions symbol) symbol = Inr symbol'"
    and r: "init_symbols hdr keys t = Inr rest'"
    and t': "t' = (name, symbol') # rest'"
    by (auto split: if_splits sum.splits)
  from init_expansions_Inr [OF e] Cons.IH [OF r] n p t' show ?case
    by (auto simp: tbl_le_def entry_le_def entry_valid_def)
qed

lemma init_symbols_Inl:
  "init_symbols hdr keys t = Inl err \<Longrightarrow>
   (\<exists>n \<in> fst ` set t. terminals hdr n \<noteq> None \<and>
        err = grammar_error (''expansion for nonterminal '' @ n)) \<or>
   (\<exists>p \<in> set t. \<exists>x \<in> set (expansions (snd p)). \<exists>e \<in> set x.
        terminals hdr e = None \<and> e \<notin> set keys \<and>
        err = grammar_error (e @ '' is not defined as a terminal or nonterminal''))"
proof (induction t)
  case Nil
  then show ?case by simp
next
  case (Cons p t)
  obtain name symbol where p: "p = (name, symbol)" by (cases p)
  show ?case
  proof (cases "terminals hdr name \<noteq> None")
    case True
    with Cons.prems p show ?thesis by auto
  next
    case False
    show ?thesis
    proof (cases "init_expansions hdr keys (expansions symbol) symbol")
      case (Inl e)
      with Cons.prems p False have "e = err" by simp
      with Inl init_expansions_Inl [of hdr keys "expansions symbol" symbol err] p
      show ?thesis by auto
    next
      case (Inr s')
      with Cons.prems p False have "init_symbols hdr keys t = Inl err"
        by (auto split: sum.splits)
      from Cons.IH [OF this] show ?thesis by auto
    qed
  qed
qed

lemma init_symbols_total:
  "\<forall>p \<in> set t. entry_valid hdr keys p \<Longrightarrow> \<exists>t'. init_symbols hdr keys t = Inr t'"
proof (induction t)
  case Nil
  then show ?case by simp
next
  case (Cons p t)
  obtain name symbol where p: "p = (name, symbol)" by (cases p)
  from Cons.prems p obtain s' where
    "init_expansions hdr keys (expansions symbol) symbol = Inr s'"
    using init_expansions_total [of "expansions symbol" hdr keys symbol]
    by (auto simp: entry_valid_def)
  moreover from Cons obtain t' where "init_symbols hdr keys t = Inr t'" by auto
  ultimately show ?case using Cons.prems p by (simp add: entry_valid_def)
qed

lemma tbl_le_set:
  "tbl_le t t' \<Longrightarrow> q \<in> set t' \<Longrightarrow> \<exists>p \<in> set t. entry_le p q"
  unfolding tbl_le_def by (induction rule: list_all2_induct) auto

lemma closed_mono: "closed hdr t \<Longrightarrow> tbl_le t t' \<Longrightarrow> closed hdr t'"
  unfolding closed_def
  by (auto simp: tbl_le_keys dest!: tbl_le_set) (auto simp: entry_le_def sym_le_def)

lemma initialise_closed:
  assumes "initialise_expansions_state hdr t = Inr t0"
  shows "closed hdr t0 \<and> tbl_le t t0"
proof -
  from init_symbols_Inr [OF assms [unfolded initialise_expansions_state_def]]
  have le: "tbl_le t t0" and v: "\<forall>p \<in> set t. entry_valid hdr (map fst t) p" by auto
  from v have "closed hdr t" by (simp add: closed_def entry_valid_def)
  with le show ?thesis by (simp add: closed_mono)
qed

lemma first_scan_ok:
  "tokens_defined hdr (map fst t) x \<Longrightarrow> \<exists>r. first_scan hdr i x t ch = Inr r"
proof (induction x arbitrary: t ch)
  case Nil
  show ?case by auto
next
  case (Cons e es)
  show ?case
  proof (cases "terminals hdr e \<noteq> None")
    case True
    then show ?thesis by auto
  next
    case False
    with Cons.prems have "e \<in> fst ` set t" by (auto simp: tokens_defined_def)
    then obtain o_sym where o: "map_of t e = Some o_sym"
      by (metis domD dom_map_of_conv_image_fst)
    have "tokens_defined hdr (map fst t') es" if "map fst t' = map fst t" for t'
      using Cons.prems that by (simp add: tokens_defined_def)
    then have *: "\<exists>r. first_scan hdr i es t' c = Inr r" if "map fst t' = map fst t" for t' c
      using Cons.IH that by blast
    from False o show ?thesis
      using * [OF refl] * [OF set_symbol_keys]
      by (auto simp: Let_def)
  qed
qed

lemma update_first_ok:
  "tokens_defined hdr (map fst t) x \<Longrightarrow> \<exists>r. update_first_from_expansion hdr t i x = Inr r"
  using first_scan_ok [of hdr t x i False]
  by (auto simp: update_first_from_expansion_def)

lemma sets_pass_ok:
  "\<forall>p \<in> set ps. fst p < length t \<and> tokens_defined hdr (map fst t) (snd p) \<Longrightarrow>
   \<exists>r. sets_pass hdr ps t ch = Inr r"
proof (induction ps arbitrary: t ch)
  case Nil
  then show ?case by simp
next
  case (Cons p ps)
  obtain i x where p: "p = (i, x)" by (cases p)
  from Cons.prems p obtain t1 r where
    u: "update_first_from_expansion hdr t i x = Inr (t1, r)"
    using update_first_ok [of hdr t x i] by auto
  from Cons.prems p have i: "i < length t" by simp
  from update_first_le [OF u i] have le1: "tbl_le t t1" by simp
  have "\<forall>p \<in> set ps. fst p < length t1 \<and> tokens_defined hdr (map fst t1) (snd p)"
    using Cons.prems le1 by (simp add: tbl_le_length tbl_le_keys)
  from Cons.IH [OF this] u p show ?case
    by (simp add: update_follow_from_expansion_def)
qed

lemma pass_ok:
  assumes "closed hdr t"
  shows "\<exists>r. sets_pass hdr (each_expansion t) t False = Inr r"
proof (rule sets_pass_ok)
  show "\<forall>p \<in> set (each_expansion t). fst p < length t \<and> tokens_defined hdr (map fst t) (snd p)"
    using assms by (auto simp: each_expansion_def closed_def)
qed

lemma fixpoint_loop_result:
  "fixpoint_loop hdr t = Some r \<Longrightarrow> r = Inr t' \<Longrightarrow>
   tbl_le t t' \<and> sets_pass hdr (each_expansion t') t' False = Inr (t', False)"
proof (induction rule: fixpoint_loop_induct)
  case (error tbl e)
  then show ?case by simp
next
  case (stable tbl tbl1)
  from pass_le [OF stable(1)] have "tbl1 = tbl" by simp
  with stable show ?case by (simp add: tbl_le_refl)
next
  case (changed tbl tbl1 r)
  from pass_le [OF changed(1)] changed(3) [OF changed(4)] show ?case
    by (auto intro: tbl_le_trans)
qed

lemma fixpoint_loop_closed:
  "fixpoint_loop hdr t = Some r \<Longrightarrow> closed hdr t \<Longrightarrow> \<exists>t'. r = Inr t'"
proof (induction rule: fixpoint_loop_induct)
  case (error tbl e)
  with pass_ok [of hdr tbl] show ?case by auto
next
  case (stable tbl tbl1)
  show ?case by simp
next
  case (changed tbl tbl1 r)
  from pass_le [OF changed(1)] changed(4) have "closed hdr tbl1" by (auto intro: closed_mono)
  with changed(3) show ?case .
qed

lemma fixpoint_terminates_aux:
  assumes "initialise_expansions_state hdr tbl = Inr tbl0"
  shows "\<exists>tbl'. fixpoint_loop hdr tbl0 = Some (Inr tbl') \<and>
           sets_pass hdr (each_expansion tbl') tbl' False = Inr (tbl', False)"
proof -
  from fixpoint_loop_total [OF bounded_all_firsts] obtain r where
    r: "fixpoint_loop hdr tbl0 = Some r" by blast
  from initialise_closed [OF assms] have "closed hdr tbl0" by simp
  from fixpoint_loop_closed [OF r this] obtain tbl' where t: "r = Inr tbl'" ..
  from fixpoint_loop_result [OF r t] r t show ?thesis by auto
qed

section \<open>Termination and grammar errors\<close>

lemma initialise_Inr_iff:
  "(\<exists>t0. initialise_expansions_state hdr t = Inr t0) \<longleftrightarrow>
   \<not> ((\<exists>n. name_collision hdr t n) \<or> (\<exists>e. undefined_reference hdr t e))"
proof
  assume "\<exists>t0. initialise_expansions_state hdr t = Inr t0"
  then obtain t0 where "init_symbols hdr (map fst t) t = Inr t0"
    by (auto simp: initialise_expansions_state_def)
  from init_symbols_Inr [OF this] have "\<forall>p \<in> set t. entry_valid hdr (map fst t) p" by simp
  then show "\<not> ((\<exists>n. name_collision hdr t n) \<or> (\<exists>e. undefined_reference hdr t e))"
    by (fastforce simp: name_collision_def undefined_reference_def entry_valid_def
        tokens_defined_def)
next
  assume "\<not> ((\<exists>n. name_collision hdr t n) \<or> (\<exists>e. undefined_reference hdr t e))"
  then have "\<forall>p \<in> set t. entry_valid hdr (map fst t) p"
    unfolding name_collision_def undefined_reference_def entry_valid_def tokens_defined_def
    by (metis image_eqI image_set not_None_eq)
  from init_symbols_total [OF this]
  show "\<exists>t0. initialise_expansions_state hdr t = Inr t0"
    by (simp add: initialise_expansions_state_def)
qed

lemma initialise_Inl:
  assumes "initialise_expansions_state hdr t = Inl err"
  shows "(\<exists>n. name_collision hdr t n \<and>
            err = GrammarError (''parsegen: grammar error: expansion for nonterminal '' @ n)) \<or>
         (\<exists>e. undefined_reference hdr t e \<and>
            err = GrammarError (''parsegen: grammar error: '' @ e @
                    '' is not defined as a terminal or nonterminal''))"
  using init_symbols_Inl [OF assms [unfolded initialise_expansions_state_def]]
  unfolding name_collision_def undefined_reference_def
  by (auto simp: grammar_error_def ParsegenError_def)

lemma compute_sets_cases:
  "(\<exists>err. initialise_expansions_state hdr t = Inl err \<and>
          compute_sets_for_expansions hdr t = Some (Inl err)) \<or>
   (\<exists>t0 t'. initialise_expansions_state hdr t = Inr t0 \<and>
          compute_sets_for_expansions hdr t = Some (Inr t') \<and>
          fixpoint_loop hdr t0 = Some (Inr t'))"
proof (cases "initialise_expansions_state hdr t")
  case (Inl err)
  then show ?thesis by (simp add: compute_sets_for_expansions_def)
next
  case (Inr t0)
  from fixpoint_terminates_aux [OF this] Inr show ?thesis
    by (auto simp: compute_sets_for_expansions_def)
qed

text \<open>
  C5: for a header and a table that pass validation the \<^verbatim>\<open>while\<close> loop ends, after
  finitely many passes, without an error; the table it returns is the result of
  \<^verbatim>\<open>_compute_sets_for_expansions\<close>, and a full pass over that table changes nothing
  and reports no change.
\<close>

theorem fixpoint_terminates:
  assumes "initialise_expansions_state hdr tbl = Inr tbl0"
  shows "\<exists>tbl'. fixpoint_loop hdr tbl0 = Some (Inr tbl') \<and>
           compute_sets_for_expansions hdr tbl = Some (Inr tbl') \<and>
           sets_pass hdr (each_expansion tbl') tbl' False = Inr (tbl', False)"
  using fixpoint_terminates_aux [OF assms] assms
  by (auto simp: compute_sets_for_expansions_def)

theorem fixpoint_terminates_witness:
  "initialise_expansions_state demo_header demo_table =
     Inr [(''a'', \<lparr>expansions = [[''b'', ''a''], [''X'']], nullable = False, first = {|''X''|}, follow = {||}\<rparr>),
          (''b'', \<lparr>expansions = [[]], nullable = True, first = {||}, follow = {||}\<rparr>)]
   \<and> (\<exists>tbl'. compute_sets_for_expansions demo_header demo_table = Some (Inr tbl') \<and>
         sets_pass demo_header (each_expansion tbl') tbl' False = Inr (tbl', False))"
proof -
  have init: "initialise_expansions_state demo_header demo_table =
     Inr [(''a'', \<lparr>expansions = [[''b'', ''a''], [''X'']], nullable = False, first = {|''X''|}, follow = {||}\<rparr>),
          (''b'', \<lparr>expansions = [[]], nullable = True, first = {||}, follow = {||}\<rparr>)]"
    by code_simp
  from fixpoint_terminates [OF init] init show ?thesis by blast
qed

lemma grammar_error_sections:
  assumes "str_split ''%%'' buffer = [h, e, u]"
  shows "((\<exists>msg. parse_buffer buffer = Some (Inl (GrammarError msg))) \<longleftrightarrow>
            (\<exists>n. name_collision (process_header h) (process_expansions e) n) \<or>
            (\<exists>t. undefined_reference (process_header h) (process_expansions e) t))
       \<and> (\<forall>msg. parse_buffer buffer = Some (Inl (GrammarError msg)) \<longrightarrow>
            (\<exists>n. name_collision (process_header h) (process_expansions e) n \<and>
                 msg = ''parsegen: grammar error: expansion for nonterminal '' @ n) \<or>
            (\<exists>t. undefined_reference (process_header h) (process_expansions e) t \<and>
                 msg = ''parsegen: grammar error: '' @ t @
                         '' is not defined as a terminal or nonterminal''))
       \<and> ((\<exists>msg. parse_buffer buffer = Some (Inl (GrammarError msg))) \<longrightarrow>
            (\<forall>res. parse_buffer buffer \<noteq> Some (Inr res)))"
proof -
  define hdr where "hdr = process_header h"
  define tbl where "tbl = process_expansions e"
  have pb: "parse_buffer buffer =
    (case compute_sets_for_expansions hdr tbl of
                   None \<Rightarrow> None
                 | Some (Inl err) \<Rightarrow> Some (Inl err)
                 | Some (Inr exps') \<Rightarrow> Some (Inr (hdr, exps', u)))"
    unfolding hdr_def tbl_def by (rule parse_buffer_three_sections [OF assms])
  from compute_sets_cases [of hdr tbl]
  show ?thesis
  proof (elim disjE exE conjE)
    fix err
    assume i: "initialise_expansions_state hdr tbl = Inl err"
      and c: "compute_sets_for_expansions hdr tbl = Some (Inl err)"
    from c pb have r: "parse_buffer buffer = Some (Inl err)" by simp
    from initialise_Inl [OF i] r show ?thesis
      unfolding hdr_def [symmetric] tbl_def [symmetric] by auto
  next
    fix t0 t'
    assume i: "initialise_expansions_state hdr tbl = Inr t0"
      and c: "compute_sets_for_expansions hdr tbl = Some (Inr t')"
    from c pb have r: "parse_buffer buffer = Some (Inr (hdr, t', u))" by simp
    from i initialise_Inr_iff [of hdr tbl]
    have "\<not> ((\<exists>n. name_collision hdr tbl n) \<or> (\<exists>e. undefined_reference hdr tbl e))" by blast
    with r show ?thesis
      unfolding hdr_def [symmetric] tbl_def [symmetric] by simp
  qed
qed

section \<open>Accumulation and follow sets\<close>

lemma sym_le_accumulates: "sym_le s s' \<Longrightarrow> accumulates s s'"
  by (simp add: sym_le_def accumulates_def)

lemma tbl_le_accumulates:
  "tbl_le t t' \<Longrightarrow> list_all2 (\<lambda>p q. fst q = fst p \<and> accumulates (snd p) (snd q)) t t'"
  unfolding tbl_le_def
  by (erule list_all2_mono) (simp add: entry_le_def sym_le_accumulates)

lemma compute_sets_le:
  assumes "compute_sets_for_expansions hdr t = Some (Inr t')"
  shows "tbl_le t t'"
proof -
  from assms obtain t0 where i: "initialise_expansions_state hdr t = Inr t0"
    and l: "fixpoint_loop hdr t0 = Some (Inr t')"
    by (auto simp: compute_sets_for_expansions_def split: sum.splits)
  from initialise_closed [OF i] fixpoint_loop_result [OF l refl] show ?thesis
    by (auto intro: tbl_le_trans)
qed

text \<open>
  C6: every operation that changes a symbol during an analysis run, and every pass of
  the fixpoint loop, only accumulates: the first and follow sets afterwards contain
  those before, \<open>nullable\<close> does not go from true to false, and the expansions
  before are still there, in place. The same holds from the table given to
  \<^verbatim>\<open>_compute_sets_for_expansions\<close> to the table it returns.
\<close>

theorem symbols_accumulate:
  "accumulates s (add_expansion s expansion)
   \<and> accumulates s (add_first s vals)
   \<and> accumulates s (add_follow s vals)
   \<and> accumulates s (set_nullable s)
   \<and> (sets_pass hdr (each_expansion tbl) tbl False = Inr (tbl', changed) \<longrightarrow>
        list_all2 (\<lambda>p q. fst q = fst p \<and> accumulates (snd p) (snd q)) tbl tbl')
   \<and> (compute_sets_for_expansions hdr tbl = Some (Inr tbl') \<longrightarrow>
        list_all2 (\<lambda>p q. fst q = fst p \<and> accumulates (snd p) (snd q)) tbl tbl')"
proof (intro conjI impI)
  show "accumulates s (add_expansion s expansion)"
    by (simp add: accumulates_def add_expansion_def set_nullable_def Let_def)
  show "accumulates s (add_first s vals)"
    by (simp add: accumulates_def add_first_def union_set_with_values_def)
  show "accumulates s (add_follow s vals)"
    by (simp add: accumulates_def add_follow_def union_set_with_values_def)
  show "accumulates s (set_nullable s)"
    by (simp add: accumulates_def set_nullable_def)
next
  assume "sets_pass hdr (each_expansion tbl) tbl False = Inr (tbl', changed)"
  from pass_le [OF this] show "list_all2 (\<lambda>p q. fst q = fst p \<and> accumulates (snd p) (snd q)) tbl tbl'"
    by (simp add: tbl_le_accumulates)
next
  assume "compute_sets_for_expansions hdr tbl = Some (Inr tbl')"
  from compute_sets_le [OF this] show "list_all2 (\<lambda>p q. fst q = fst p \<and> accumulates (snd p) (snd q)) tbl tbl'"
    by (rule tbl_le_accumulates)
qed

lemma set_alist_update: "set (AList.update k v al) \<subseteq> insert (k, v) (set al)"
  by (induction al) auto

lemma built_add_expansion:
  "built s \<or> s = new_Symbol \<Longrightarrow> built (add_expansion s x)"
  by (auto simp: built_def add_expansion_def set_nullable_def new_Symbol_def Let_def)

lemma process_expansion_lines_built:
  "\<forall>p \<in> set exps. built (snd p) \<Longrightarrow> \<forall>p \<in> set (process_expansion_lines ls exps). built (snd p)"
proof (induction ls arbitrary: exps)
  case Nil
  then show ?case by simp
next
  case (Cons l ls)
  obtain k v where kv: "kv_with_sep l '':='' = (k, v)" by (cases "kv_with_sep l '':=''")
  define s where "s = (case map_of exps k of Some s \<Rightarrow> s | None \<Rightarrow> new_Symbol)"
  have "built s \<or> s = new_Symbol"
    using Cons.prems by (auto simp: s_def split: option.splits dest!: map_of_SomeD)
  then have "built (add_expansion s (split_ws v))" by (rule built_add_expansion)
  with Cons.prems have "\<forall>p \<in> set (AList.update k (add_expansion s (split_ws v)) exps). built (snd p)"
    using set_alist_update [of k "add_expansion s (split_ws v)" exps] by auto
  from Cons.IH [OF this] kv show ?case by (simp add: s_def Let_def)
qed

lemma process_expansions_built: "p \<in> set (process_expansions text) \<Longrightarrow> built (snd p)"
  using process_expansion_lines_built [of "[]" "processed_lines text"]
  by (simp add: process_expansions_def)

lemma parse_buffer_Inr:
  assumes "parse_buffer buffer = Some (Inr (hdr, tbl, code))"
  shows "\<exists>h e. str_split ''%%'' buffer = [h, e, code] \<and> hdr = process_header h \<and>
           compute_sets_for_expansions hdr (process_expansions e) = Some (Inr tbl)"
proof -
  have "length (str_split ''%%'' buffer) = 3"
    using assms parse_buffer_bad_sections [of buffer] by (cases "length (str_split ''%%'' buffer) = 3") auto
  then obtain h e u where s: "str_split ''%%'' buffer = [h, e, u]"
    by (auto simp: length_Suc_conv numeral_3_eq_3)
  from parse_buffer_three_sections [OF s] assms show ?thesis
    using s by (auto split: option.splits sum.splits)
qed

text \<open>
  C8: the FOLLOW-set step returns \<open>False\<close> for every input; the set computation
  leaves every follow set as it was, and in a table returned by \<^verbatim>\<open>parse_buffer\<close>
  every follow set is empty.
\<close>

theorem follow_stays_empty:
  "update_follow_from_expansion hdr name symbol expansion = False
   \<and> (compute_sets_for_expansions hdr tbl = Some (Inr tbl') \<longrightarrow>
        map (\<lambda>p. follow (snd p)) tbl' = map (\<lambda>p. follow (snd p)) tbl)
   \<and> (parse_buffer buffer = Some (Inr (hdr', exps, code)) \<longrightarrow>
        (\<forall>p \<in> set exps. follow (snd p) = {||}))"
proof (intro conjI impI)
  show "update_follow_from_expansion hdr name symbol expansion = False"
    by (simp add: update_follow_from_expansion_def)
next
  assume "compute_sets_for_expansions hdr tbl = Some (Inr tbl')"
  from compute_sets_le [OF this] have "list_all2 entry_le tbl tbl'" by (simp add: tbl_le_def)
  then show "map (\<lambda>p. follow (snd p)) tbl' = map (\<lambda>p. follow (snd p)) tbl"
    by (induction rule: list_all2_induct) (auto simp: entry_le_def sym_le_def)
next
  assume "parse_buffer buffer = Some (Inr (hdr', exps, code))"
  from parse_buffer_Inr [OF this] obtain e where
    c: "compute_sets_for_expansions hdr' (process_expansions e) = Some (Inr exps)" by blast
  show "\<forall>p \<in> set exps. follow (snd p) = {||}"
  proof
    fix q assume "q \<in> set exps"
    from tbl_le_set [OF compute_sets_le [OF c] this] obtain p where
      "p \<in> set (process_expansions e)" "entry_le p q" by blast
    with process_expansions_built [of p e] show "follow (snd q) = {||}"
      by (simp add: built_def entry_le_def sym_le_def)
  qed
qed

section \<open>Nullability\<close>

lemma set_symbol_nth:
  "j < length t \<Longrightarrow> set_symbol t i s ! j = (if j = i then (fst (t ! i), s) else t ! j)"
  by (simp add: set_symbol_def nth_list_update)

lemma first_scan_nullable:
  "first_scan hdr i x t ch = Inr (t', ch', ex) \<Longrightarrow> j < length t \<Longrightarrow>
   nullable (snd (t' ! j)) = nullable (snd (t ! j)) \<and> length t' = length t"
proof (induction x arbitrary: t ch)
  case Nil
  then show ?case by simp
next
  case (Cons e es)
  show ?case
  proof (cases "terminals hdr e \<noteq> None")
    case True
    with Cons.prems show ?thesis by auto
  next
    case False
    with Cons.prems obtain other_sym where o: "map_of t e = Some other_sym"
      by (auto split: option.splits)
    define t1 where "t1 = (if \<not> first other_sym |\<subseteq>| first (snd (t ! i))
        then set_symbol t i (add_first (snd (t ! i)) (VSet (first other_sym))) else t)"
    define ch1 where "ch1 = (if \<not> first other_sym |\<subseteq>| first (snd (t ! i)) then True else ch)"
    have n1: "nullable (snd (t1 ! j)) = nullable (snd (t ! j))" and len1: "length t1 = length t"
      using Cons.prems(2) by (auto simp: t1_def set_symbol_nth add_first_def) (simp add: set_symbol_def)
    from Cons.prems(1) False o
    have r: "(if \<not> is_nullable other_sym then Inr (t1, ch1, False)
              else first_scan hdr i es t1 ch1) = Inr (t', ch', ex)"
      unfolding t1_def ch1_def
      by (simp add: Let_def split del: if_split cong: if_cong)
    show ?thesis
    proof (cases "is_nullable other_sym")
      case False
      with r n1 len1 show ?thesis by auto
    next
      case True
      with r have "first_scan hdr i es t1 ch1 = Inr (t', ch', ex)" by simp
      from Cons.IH [OF this] Cons.prems(2) n1 len1 show ?thesis by simp
    qed
  qed
qed

lemma first_scan_exhausted:
  assumes "first_scan hdr i x t ch = Inr (t', ch', True)" and "x \<noteq> []"
  shows "terminals hdr (hd x) = None \<and> (\<exists>s'. map_of t (hd x) = Some s' \<and> is_nullable s')"
proof -
  from assms(2) obtain e es where x: "x = e # es" by (cases x) auto
  from assms(1) show ?thesis unfolding x
    by (auto simp: Let_def split: if_splits option.splits)
qed

lemma update_first_sets_nullable:
  assumes u: "update_first_from_expansion hdr t i x = Inr (t', r)"
    and j: "j < length t"
    and before: "\<not> nullable (snd (t ! j))" and after: "nullable (snd (t' ! j))"
  shows "j = i \<and> (x = [] \<or>
      (terminals hdr (hd x) = None \<and> (\<exists>s'. map_of t (hd x) = Some s' \<and> is_nullable s')))"
proof -
  from u obtain t1 ch1 ex where
    scan: "first_scan hdr i x t False = Inr (t1, ch1, ex)"
    by (auto simp: update_first_from_expansion_def split: sum.splits)
  from first_scan_nullable [OF scan j]
  have n1: "nullable (snd (t1 ! j)) = nullable (snd (t ! j))" and len1: "length t1 = length t" by auto
  show ?thesis
  proof (cases "ex \<and> \<not> is_nullable (snd (t1 ! i))")
    case True
    with u scan have t': "t' = set_symbol t1 i (set_nullable (snd (t1 ! i)))"
      by (auto simp: update_first_from_expansion_def)
    from after before n1 j len1 have "j = i"
      unfolding t' by (auto simp: set_symbol_nth split: if_splits)
    moreover from True scan have "first_scan hdr i x t False = Inr (t1, ch1, True)" by simp
    from first_scan_exhausted [OF this]
    have "x = [] \<or> (terminals hdr (hd x) = None \<and> (\<exists>s'. map_of t (hd x) = Some s' \<and> is_nullable s'))"
      by blast
    ultimately show ?thesis by simp
  next
    case False
    with u scan have "t' = t1" by (auto simp: update_first_from_expansion_def)
    with after before n1 show ?thesis by simp
  qed
qed

lemma tbl_le_expansions:
  "tbl_le t t' \<Longrightarrow> j < length t \<Longrightarrow> expansions (snd (t' ! j)) = expansions (snd (t ! j))"
  using tbl_le_nth [of t t' j] by (simp add: entry_le_def sym_le_def)

lemma sets_pass_keeps_non_nullable:
  "sets_pass hdr ps t ch = Inr (t', ch') \<Longrightarrow>
   \<forall>p \<in> set ps. fst p < length t \<and> snd p \<in> set (expansions (snd (t ! fst p))) \<Longrightarrow>
   tbl_le t' F \<Longrightarrow> j < length t \<Longrightarrow> leads_non_nullable hdr F (snd (F ! j)) \<Longrightarrow>
   \<not> nullable (snd (t ! j)) \<Longrightarrow> \<not> nullable (snd (t' ! j))"
proof (induction ps arbitrary: t ch)
  case Nil
  then show ?case by simp
next
  case (Cons p ps)
  obtain i x where p: "p = (i, x)" by (cases p)
  from Cons.prems(1) p obtain t1 r where
    u: "update_first_from_expansion hdr t i x = Inr (t1, r)"
    and rest: "sets_pass hdr ps t1 (ch \<or> r) = Inr (t', ch')"
    by (auto simp: update_follow_from_expansion_def split: sum.splits)
  from Cons.prems(2) p have i: "i < length t" and xi: "x \<in> set (expansions (snd (t ! i)))" by auto
  from update_first_le [OF u i] have le1: "tbl_le t t1" by simp
  have rng: "\<forall>p \<in> set ps. fst p < length t1 \<and> snd p \<in> set (expansions (snd (t1 ! fst p)))"
    using Cons.prems(2) le1 by (simp add: tbl_le_length tbl_le_expansions)
  then have "\<forall>p \<in> set ps. fst p < length t1" by simp
  from sets_pass_le [OF rest this] have le2: "tbl_le t1 t'" by simp
  have leF: "tbl_le t F" using le1 le2 Cons.prems(3) by (blast intro: tbl_le_trans)
  have "\<not> nullable (snd (t1 ! j))"
  proof
    assume "nullable (snd (t1 ! j))"
    from update_first_sets_nullable [OF u Cons.prems(4) Cons.prems(6) this]
    have ji: "j = i" and c: "x = [] \<or>
      (terminals hdr (hd x) = None \<and> (\<exists>s'. map_of t (hd x) = Some s' \<and> is_nullable s'))" by auto
    from xi ji tbl_le_expansions [OF leF i] have "x \<in> set (expansions (snd (F ! j)))" by simp
    with Cons.prems(5) have ne: "x \<noteq> []"
      and d: "terminals hdr (hd x) \<noteq> None \<or> (\<exists>s'. map_of F (hd x) = Some s' \<and> \<not> is_nullable s')"
      by (auto simp: leads_non_nullable_def)
    from c ne obtain s1 where t: "terminals hdr (hd x) = None"
      and m: "map_of t (hd x) = Some s1" and n: "is_nullable s1" by auto
    from tbl_le_map_of [OF leF m] obtain s2 where "map_of F (hd x) = Some s2" "sym_le s1 s2" by blast
    with n d t show False by (auto dest: sym_le_is_nullable)
  qed
  moreover have "j < length t1" using Cons.prems(4) le1 by (simp add: tbl_le_length)
  ultimately show ?case
    using Cons.IH [OF rest rng Cons.prems(3)] Cons.prems(5) by blast
qed

lemma each_expansion_real:
  "\<forall>p \<in> set (each_expansion t). fst p < length t \<and> snd p \<in> set (expansions (snd (t ! fst p)))"
  by (auto simp: each_expansion_def)

lemma fixpoint_loop_keeps_non_nullable:
  "fixpoint_loop hdr t = Some r \<Longrightarrow> r = Inr F \<Longrightarrow> j < length t \<Longrightarrow>
   leads_non_nullable hdr F (snd (F ! j)) \<Longrightarrow> \<not> nullable (snd (t ! j)) \<Longrightarrow>
   \<not> nullable (snd (F ! j))"
proof (induction rule: fixpoint_loop_induct)
  case (error tbl e)
  then show ?case by simp
next
  case (stable tbl tbl1)
  from pass_le [OF stable(1)] have "tbl1 = tbl" by simp
  with stable show ?case by simp
next
  case (changed tbl tbl1 r)
  from fixpoint_loop_result [OF changed(2) changed(4)] have le: "tbl_le tbl1 F" by simp
  from sets_pass_keeps_non_nullable [OF changed(1) each_expansion_real le changed(5,6,7)]
  have "\<not> nullable (snd (tbl1 ! j))" .
  moreover have "j < length tbl1"
    using pass_le [OF changed(1), THEN conjunct1] changed(5) by (simp add: tbl_le_length)
  ultimately show ?case using changed(3) [OF changed(4)] changed(6) by blast
qed

lemma init_expansions_nullable:
  "init_expansions hdr keys xs s = Inr s' \<Longrightarrow> nullable s' = nullable s"
  by (induction xs arbitrary: s) (auto simp: Let_def add_first_def split: sum.splits if_splits)

lemma init_symbols_nullable:
  "init_symbols hdr keys t = Inr t' \<Longrightarrow> j < length t \<Longrightarrow>
   nullable (snd (t' ! j)) = nullable (snd (t ! j))"
proof (induction t arbitrary: t' j)
  case Nil
  then show ?case by simp
next
  case (Cons p t)
  obtain name symbol where p: "p = (name, symbol)" by (cases p)
  from Cons.prems p obtain symbol' rest' where
    e: "init_expansions hdr keys (expansions symbol) symbol = Inr symbol'"
    and r: "init_symbols hdr keys t = Inr rest'"
    and t': "t' = (name, symbol') # rest'"
    by (auto split: if_splits sum.splits)
  show ?case
  proof (cases j)
    case 0
    with init_expansions_nullable [OF e] p t' show ?thesis by simp
  next
    case (Suc k)
    with Cons.prems(2) Cons.IH [OF r, of k] p t' show ?thesis by simp
  qed
qed

lemma analysed_symbol:
  assumes pb: "parse_buffer buffer = Some (Inr (hdr, tbl, code))"
    and mem: "(name, s) \<in> set tbl"
  shows "\<exists>e t0 j s0. compute_sets_for_expansions hdr (process_expansions e) = Some (Inr tbl) \<and>
      initialise_expansions_state hdr (process_expansions e) = Inr t0 \<and>
      fixpoint_loop hdr t0 = Some (Inr tbl) \<and>
      j < length tbl \<and> tbl ! j = (name, s) \<and> length t0 = length tbl \<and>
      length (process_expansions e) = length tbl \<and>
      process_expansions e ! j = (name, s0) \<and> built s0 \<and> sym_le s0 s \<and>
      nullable (snd (t0 ! j)) = nullable s0"
proof -
  from parse_buffer_Inr [OF pb] obtain e where
    c: "compute_sets_for_expansions hdr (process_expansions e) = Some (Inr tbl)" by blast
  define T where "T = process_expansions e"
  from c obtain t0 where i: "initialise_expansions_state hdr T = Inr t0"
    and l: "fixpoint_loop hdr t0 = Some (Inr tbl)"
    by (auto simp: T_def compute_sets_for_expansions_def split: sum.splits)
  from mem obtain j where j: "j < length tbl" and tj: "tbl ! j = (name, s)"
    by (auto simp: in_set_conv_nth)
  from initialise_closed [OF i] have le0: "tbl_le T t0" by simp
  from fixpoint_loop_result [OF l refl] have le1: "tbl_le t0 tbl" by simp
  from le0 le1 have le: "tbl_le T tbl" by (rule tbl_le_trans)
  have len: "length T = length tbl" "length t0 = length tbl"
    using tbl_le_length [OF le] tbl_le_length [OF le1] by simp_all
  with j have jT: "j < length T" by simp
  obtain n0 s0 where T0: "T ! j = (n0, s0)" by (cases "T ! j")
  from tbl_le_nth [OF le jT] T0 tj have n0: "n0 = name" and sl: "sym_le s0 s"
    by (auto simp: entry_le_def)
  from jT T0 have "(n0, s0) \<in> set T" by (metis nth_mem)
  from process_expansions_built [OF this [unfolded T_def]] have b: "built s0" by simp
  from init_symbols_nullable [OF i [unfolded initialise_expansions_state_def] jT] T0
  have "nullable (snd (t0 ! j)) = nullable s0" by simp
  with c i l j tj len T0 n0 sl b show ?thesis unfolding T_def by blast
qed

text \<open>
  C4: a symbol without expansions reports nullable. After the analysis of a buffer, a
  symbol with an empty expansion reports nullable, and a symbol reports not nullable
  when each of its expansions is non-empty and made only of terminals and of
  nonterminals that report not nullable.
\<close>

theorem nullable_after_analysis:
  assumes "parse_buffer buffer = Some (Inr (hdr, tbl, code))"
    and "(name, s) \<in> set tbl"
  shows "(\<forall>s'. expansions s' = [] \<longrightarrow> is_nullable s')
       \<and> ([] \<in> set (expansions s) \<longrightarrow> is_nullable s)
       \<and> ((\<forall>x \<in> set (expansions s). x \<noteq> [] \<and>
              (\<forall>e \<in> set x. terminals hdr e \<noteq> None \<or>
                 (\<exists>s'. map_of tbl e = Some s' \<and> \<not> is_nullable s')))
            \<longrightarrow> \<not> is_nullable s)"
proof (intro conjI impI allI)
  fix s' :: symbol assume "expansions s' = []"
  then show "is_nullable s'" by (simp add: is_nullable_def)
next
  from analysed_symbol [OF assms] obtain s0 where "built s0" "sym_le s0 s" by blast
  moreover assume "[] \<in> set (expansions s)"
  ultimately show "is_nullable s"
    by (auto simp: built_def sym_le_def is_nullable_def)
next
  assume all: "\<forall>x \<in> set (expansions s). x \<noteq> [] \<and>
              (\<forall>e \<in> set x. terminals hdr e \<noteq> None \<or>
                 (\<exists>s'. map_of tbl e = Some s' \<and> \<not> is_nullable s'))"
  from analysed_symbol [OF assms] obtain t0 j s0 where
    l: "fixpoint_loop hdr t0 = Some (Inr tbl)"
    and j: "j < length tbl" and tj: "tbl ! j = (name, s)" and len: "length t0 = length tbl"
    and b: "built s0" and sl: "sym_le s0 s" and n0: "nullable (snd (t0 ! j)) = nullable s0"
    by blast
  from all have lead: "leads_non_nullable hdr tbl (snd (tbl ! j))"
    unfolding leads_non_nullable_def tj by (auto simp: hd_in_set)
  from all sl have "[] \<notin> set (expansions s0)" by (auto simp: sym_le_def)
  with b n0 have "\<not> nullable (snd (t0 ! j))" by (simp add: built_def)
  from fixpoint_loop_keeps_non_nullable [OF l refl _ lead this] j len tj
  have "\<not> nullable s" by simp
  moreover from b sl have "expansions s \<noteq> []" by (simp add: built_def sym_le_def)
  ultimately show "\<not> is_nullable s" by (simp add: is_nullable_def)
qed

section \<open>Concrete checks\<close>

lemma demo_buffer_sections:
  "str_split ''%%'' demo_buffer =
     [''X = Tok_X '', '' a := b X'' @ NL @ ''b :='' @ NL @ ''c := a X '', '' '']"
  by code_simp

lemma demo_buffer_sets:
  "compute_sets_for_expansions (process_header ''X = Tok_X '')
     (process_expansions ('' a := b X'' @ NL @ ''b :='' @ NL @ ''c := a X '')) =
   Some (Inr demo_result)"
  by code_simp

lemma demo_buffer_parsed:
  "parse_buffer demo_buffer = Some (Inr (process_header ''X = Tok_X '', demo_result, '' ''))"
  using parse_buffer_three_sections [OF demo_buffer_sections] demo_buffer_sets by simp

lemma demo_header_X: "terminals (process_header ''X = Tok_X '') ''X'' = Some ''Tok_X''"
  by code_simp

theorem nullable_after_analysis_witness:
  "parse_buffer demo_buffer = Some (Inr (process_header ''X = Tok_X '', demo_result, '' ''))
   \<and> is_nullable new_Symbol
   \<and> is_nullable \<lparr>expansions = [[]], nullable = True, first = {||}, follow = {||}\<rparr>
   \<and> \<not> is_nullable \<lparr>expansions = [[''a'', ''X'']], nullable = False, first = {||}, follow = {||}\<rparr>"
proof -
  have b: "(''b'', \<lparr>expansions = [[]], nullable = True, first = {||}, follow = {||}\<rparr>) \<in> set demo_result"
    by (simp add: demo_result_def)
  have c: "(''c'', \<lparr>expansions = [[''a'', ''X'']], nullable = False, first = {||}, follow = {||}\<rparr>)
      \<in> set demo_result"
    by (simp add: demo_result_def)
  have a: "map_of demo_result ''a'' =
      Some \<lparr>expansions = [[''b'', ''X'']], nullable = False, first = {||}, follow = {||}\<rparr>"
    by (simp add: demo_result_def)
  have na: "\<not> is_nullable \<lparr>expansions = [[''b'', ''X'']], nullable = False, first = {||}, follow = {||}\<rparr>"
    by (simp add: is_nullable_def)
  from nullable_after_analysis [OF demo_buffer_parsed b]
  have 1: "is_nullable new_Symbol"
    and 2: "is_nullable \<lparr>expansions = [[]], nullable = True, first = {||}, follow = {||}\<rparr>"
    by (simp_all add: new_Symbol_def)
  from nullable_after_analysis [OF demo_buffer_parsed c] a na demo_header_X
  have 3: "\<not> is_nullable \<lparr>expansions = [[''a'', ''X'']], nullable = False, first = {||}, follow = {||}\<rparr>"
    by simp
  from demo_buffer_parsed 1 2 3 show ?thesis by simp
qed

theorem follow_stays_empty_witness:
  "compute_sets_for_expansions (process_header ''X = Tok_X '')
     (process_expansions ('' a := b X'' @ NL @ ''b :='' @ NL @ ''c := a X '')) =
     Some (Inr demo_result)
   \<and> parse_buffer demo_buffer = Some (Inr (process_header ''X = Tok_X '', demo_result, '' ''))
   \<and> map (\<lambda>p. follow (snd p)) demo_result = [{||}, {||}, {||}]"
  using follow_stays_empty [of "process_header ''X = Tok_X ''" "''a''" new_Symbol "[]"
      "process_expansions ('' a := b X'' @ NL @ ''b :='' @ NL @ ''c := a X '')" demo_result
      demo_buffer "process_header ''X = Tok_X ''" demo_result "'' ''"]
    demo_buffer_sets demo_buffer_parsed
  by (simp add: demo_result_def)

theorem symbols_accumulate_witness:
  "sets_pass demo_header (each_expansion chain_table) chain_table False = Inr (chain_result, True)
   \<and> compute_sets_for_expansions demo_header chain_table = Some (Inr chain_result)
   \<and> list_all2 (\<lambda>p q. fst q = fst p \<and> accumulates (snd p) (snd q)) chain_table chain_result
   \<and> accumulates new_Symbol (add_expansion new_Symbol [])"
proof -
  have p: "sets_pass demo_header (each_expansion chain_table) chain_table False
      = Inr (chain_result, True)"
    by code_simp
  have c: "compute_sets_for_expansions demo_header chain_table = Some (Inr chain_result)"
    by code_simp
  from symbols_accumulate [of new_Symbol "[]" "VList []" demo_header chain_table chain_result True] p c
  show ?thesis by simp
qed

section \<open>The predicting terminals\<close>

lemma write_tokens_append:
  "write_tokens hdr xs (out @ f) params node =
   (out @ fst (write_tokens hdr xs f params node), snd (write_tokens hdr xs f params node))"
  by (induction xs arbitrary: f params node) (auto split: option.splits)

lemma body_texts_no_label:
  "\<not> is_case_label (eat_terminal_text v)" "\<not> is_case_label (call_text n k)"
  "\<not> is_case_label (action_text name params)" "\<not> is_case_label break_text"
  by (simp_all add: is_case_label_def eat_terminal_text_def call_text_def action_text_def
      break_text_def)

lemma write_tokens_no_label:
  "\<forall>c \<in> set f. \<not> is_case_label c \<Longrightarrow>
   \<forall>c \<in> set (fst (write_tokens hdr xs f params node)). \<not> is_case_label c"
proof (induction xs arbitrary: f params node)
  case Nil
  then show ?case by simp
next
  case (Cons x xs)
  show ?case
  proof (cases "terminals hdr x")
    case None
    have "\<forall>c \<in> set (f @ [call_text (node_temp_text node) x]). \<not> is_case_label c"
      using Cons.prems by (simp add: body_texts_no_label)
    from Cons.IH [OF this] None show ?thesis by simp
  next
    case (Some v)
    have "\<forall>c \<in> set (f @ [eat_terminal_text v]). \<not> is_case_label c"
      using Cons.prems by (simp add: body_texts_no_label)
    from Cons.IH [OF this] Some show ?thesis by simp
  qed
qed

lemma body_text_no_label: "c \<in> set (body_text hdr name expansion) \<Longrightarrow> \<not> is_case_label c"
proof -
  obtain texts params where w: "write_tokens hdr expansion [] [] 0 = (texts, params)"
    by (cases "write_tokens hdr expansion [] [] 0")
  from write_tokens_no_label [of "[]" hdr expansion "[]" 0] w
  have "\<forall>c \<in> set texts. \<not> is_case_label c" by simp
  moreover assume "c \<in> set (body_text hdr name expansion)"
  ultimately show ?thesis by (auto simp: body_text_def w body_texts_no_label)
qed

lemma write_cases_values:
  "map (terminals hdr) terms = map Some vs \<Longrightarrow>
   write_cases hdr terms out = Inr (out @ map case_text vs)"
  by (induction terms arbitrary: vs out) auto

lemma write_body_with_terms:
  assumes "map (terminals hdr) terms = map Some vs"
  shows "(case write_cases hdr terms out of
               Inl err \<Rightarrow> Inl err
             | Inr file1 \<Rightarrow>
                 (case write_tokens hdr expansion file1 [] 0 of
                    (file2, params) \<Rightarrow>
                      Inr (file2 @ [action_text name params, break_text])))
         = Inr (out @ map case_text vs @ body_text hdr name expansion)"
  using write_tokens_append [where hdr = hdr and xs = expansion and out = "out @ map case_text vs"
      and f = "[]" and params = "[]" and node = 0]
  by (simp add: write_cases_values [OF assms] body_text_def split: prod.splits)

text \<open>
  C7: for a non-empty expansion the emitter first writes the \<^verbatim>\<open>case\<close> labels of the
  predicting terminals and then the body of the branch, which holds no label. If the
  first token is a terminal, there is the one label of that terminal. Otherwise the
  labels are those of the terminals in the first set of the first token, one for each
  in the order of iteration; no later token of the expansion has any part in them.
\<close>

theorem predicting_terminals:
  assumes "expansion \<noteq> []"
  shows "(\<forall>v. terminals hdr (hd expansion) = Some v \<longrightarrow>
            write_body_for_expansion iter hdr tbl name expansion out =
              Inr (out @ [case_text v] @ body_text hdr name expansion))
       \<and> (\<forall>s vs. terminals hdr (hd expansion) = None \<and> map_of tbl (hd expansion) = Some s \<and>
              distinct (iter (first s)) \<and> set (iter (first s)) = fset (first s) \<and>
              map (terminals hdr) (iter (first s)) = map Some vs \<longrightarrow>
            write_body_for_expansion iter hdr tbl name expansion out =
              Inr (out @ map case_text vs @ body_text hdr name expansion) \<and>
            length vs = fcard (first s))
       \<and> (\<forall>c \<in> set (body_text hdr name expansion). \<not> is_case_label c)
       \<and> (\<forall>v. is_case_label (case_text v))"
proof (intro conjI allI impI ballI)
  fix v assume "terminals hdr (hd expansion) = Some v"
  then show "write_body_for_expansion iter hdr tbl name expansion out =
      Inr (out @ [case_text v] @ body_text hdr name expansion)"
    using assms write_body_with_terms [where hdr = hdr and terms = "[hd expansion]" and vs = "[v]"
        and out = out and expansion = expansion and name = name]
    by (simp add: write_body_for_expansion_def)
next
  fix s vs
  assume a: "terminals hdr (hd expansion) = None \<and> map_of tbl (hd expansion) = Some s \<and>
              distinct (iter (first s)) \<and> set (iter (first s)) = fset (first s) \<and>
              map (terminals hdr) (iter (first s)) = map Some vs"
  then show "write_body_for_expansion iter hdr tbl name expansion out =
      Inr (out @ map case_text vs @ body_text hdr name expansion)"
    using assms write_body_with_terms [where hdr = hdr and terms = "iter (first s)" and vs = vs
        and out = out and expansion = expansion and name = name]
    by (simp add: write_body_for_expansion_def)
  from a have "length vs = length (iter (first s))" by (metis length_map)
  also from a have "\<dots> = card (set (iter (first s)))" by (metis distinct_card)
  also from a have "\<dots> = fcard (first s)" by (simp add: fcard.rep_eq)
  finally show "length vs = fcard (first s)" .
next
  fix c assume "c \<in> set (body_text hdr name expansion)"
  then show "\<not> is_case_label c" by (rule body_text_no_label)
next
  fix v show "is_case_label (case_text v)" by (simp add: is_case_label_def case_text_def)
qed

theorem predicting_terminals_witness:
  "write_body_for_expansion sorted_list_of_fset demo_header chain_result ''d'' [''X''] [] =
     Inr ([case_text ''Tok_X''] @ body_text demo_header ''d'' [''X''])
   \<and> write_body_for_expansion sorted_list_of_fset demo_header chain_result ''d'' [''a'', ''X''] [] =
     Inr (map case_text [''Tok_X''] @ body_text demo_header ''d'' [''a'', ''X''])
   \<and> length [''Tok_X''] = fcard {|''X''|}"
proof -
  have X: "terminals demo_header ''X'' = Some ''Tok_X''" and a: "terminals demo_header ''a'' = None"
    by (simp_all add: demo_header_def)
  have m: "map_of chain_result ''a'' =
      Some \<lparr>expansions = [[''X'']], nullable = False, first = {|''X''|}, follow = {||}\<rparr>"
    by (simp add: chain_result_def)
  have i: "sorted_list_of_fset {|''X''|} = [''X'']" by code_simp
  from predicting_terminals [of "[''X'']" demo_header sorted_list_of_fset chain_result "''d''" "[]"] X
  have 1: "write_body_for_expansion sorted_list_of_fset demo_header chain_result ''d'' [''X''] [] =
     Inr ([case_text ''Tok_X''] @ body_text demo_header ''d'' [''X''])"
    by simp
  have ne: "[''a'', ''X''] \<noteq> []" by simp
  have "terminals demo_header (hd [''a'', ''X'']) = None \<and>
      map_of chain_result (hd [''a'', ''X'']) =
        Some \<lparr>expansions = [[''X'']], nullable = False, first = {|''X''|}, follow = {||}\<rparr> \<and>
      distinct (sorted_list_of_fset (first \<lparr>expansions = [[''X'']], nullable = False,
        first = {|''X''|}, follow = {||}\<rparr>)) \<and>
      set (sorted_list_of_fset (first \<lparr>expansions = [[''X'']], nullable = False,
        first = {|''X''|}, follow = {||}\<rparr>)) =
        fset (first \<lparr>expansions = [[''X'']], nullable = False, first = {|''X''|}, follow = {||}\<rparr>) \<and>
      map (terminals demo_header) (sorted_list_of_fset (first \<lparr>expansions = [[''X'']],
        nullable = False, first = {|''X''|}, follow = {||}\<rparr>)) = map Some [''Tok_X'']"
    using a m i X by simp
  from predicting_terminals [OF ne, where iter = sorted_list_of_fset and hdr = demo_header
      and tbl = chain_result and name = "''d''" and out = "[]",
      THEN conjunct2, THEN conjunct1, rule_format, OF this]
  have "write_body_for_expansion sorted_list_of_fset demo_header chain_result ''d'' [''a'', ''X''] [] =
     Inr (map case_text [''Tok_X''] @ body_text demo_header ''d'' [''a'', ''X''])
     \<and> length [''Tok_X''] = fcard {|''X''|}"
    by simp
  with 1 show ?thesis by simp
qed

section \<open>The header processor\<close>

lemma str_partition_acc_absent:
  "c \<notin> set s \<Longrightarrow> str_partition_acc [c] s cur = (cur @ s, [], [])"
  by (induction s arbitrary: cur) auto

lemma str_partition_absent: "c \<notin> set s \<Longrightarrow> str_partition [c] s = (s, [], [])"
  by (simp add: str_partition_def str_partition_acc_absent)

lemma dropWhile_id: "xs = [] \<or> \<not> P (hd xs) \<Longrightarrow> dropWhile P xs = xs"
  by (cases xs) auto

lemma str_strip_ends:
  "str_strip s = [] \<or> (\<not> isspace (hd (str_strip s)) \<and> \<not> isspace (last (str_strip s)))"
proof -
  define a where "a = dropWhile isspace s"
  define b where "b = dropWhile isspace (rev a)"
  have r: "str_strip s = rev b" by (simp add: str_strip_def a_def b_def)
  show ?thesis
  proof (cases "b = []")
    case True
    with r show ?thesis by simp
  next
    case False
    then have hb: "\<not> isspace (hd b)" unfolding b_def by (rule hd_dropWhile)
    from False have ra: "rev a \<noteq> []" by (auto simp: b_def)
    then have "a \<noteq> []" by simp
    then have ha: "\<not> isspace (hd a)" unfolding a_def by (rule hd_dropWhile)
    have "last b = last (rev a)"
      using False unfolding b_def
      by (metis takeWhile_dropWhile_id last_appendR)
    also have "\<dots> = hd a" using \<open>a \<noteq> []\<close> by (simp add: last_rev)
    finally have lb: "\<not> isspace (last b)" using ha by simp
    from False hb lb r show ?thesis by (simp add: hd_rev last_rev)
  qed
qed

lemma str_strip_fixed:
  assumes "s = [] \<or> (\<not> isspace (hd s) \<and> \<not> isspace (last s))"
  shows "str_strip s = s"
proof -
  from assms have 1: "dropWhile isspace s = s" by (auto intro: dropWhile_id)
  from assms have "rev s = [] \<or> \<not> isspace (hd (rev s))" by (auto simp: hd_rev)
  then have "dropWhile isspace (rev s) = rev s" by (rule dropWhile_id)
  with 1 show ?thesis by (simp add: str_strip_def)
qed

lemma str_strip_idem: "str_strip (str_strip s) = str_strip s"
  by (rule str_strip_fixed) (rule str_strip_ends)

lemma processed_line_stripped:
  "l \<in> set (processed_lines text) \<Longrightarrow> l \<noteq> [] \<and> str_strip l = l"
  by (auto simp: processed_lines_def str_strip_idem)

lemma str_strip_Nil: "str_strip [] = []"
  by (simp add: str_strip_def)

lemma kv_no_equals:
  "CHR ''='' \<notin> set s \<Longrightarrow> kv_with_sep s ''='' = (str_strip s, [])"
  by (simp add: kv_with_sep_def str_partition_absent str_strip_Nil)

lemma process_header_lines_append:
  "process_header_lines (xs @ ys) terms opts =
   process_header_lines ys (terminals (process_header_lines xs terms opts))
     (options (process_header_lines xs terms opts))"
  by (induction xs arbitrary: terms opts) auto

lemma options_untouched:
  "\<forall>l \<in> set ls. header_key l \<noteq> (True, k) \<Longrightarrow>
   options (process_header_lines ls terms opts) k = opts k"
  by (induction ls arbitrary: terms opts)
     (auto simp: header_key_def add_opt_to_dict_def split: prod.splits if_splits)

lemma terminals_untouched:
  "\<forall>l \<in> set ls. header_key l \<noteq> (False, k) \<Longrightarrow>
   terminals (process_header_lines ls terms opts) k = terms k"
  by (induction ls arbitrary: terms opts)
     (auto simp: header_key_def add_opt_to_dict_def split: prod.splits if_splits)

lemma options_dom_grows:
  "k \<in> dom opts \<Longrightarrow> k \<in> dom (options (process_header_lines ls terms opts))"
  by (induction ls arbitrary: terms opts) (auto simp: add_opt_to_dict_def split: prod.splits)

lemma terminals_dom_grows:
  "k \<in> dom terms \<Longrightarrow> k \<in> dom (terminals (process_header_lines ls terms opts))"
  by (induction ls arbitrary: terms opts) (auto simp: add_opt_to_dict_def split: prod.splits)

text \<open>
  C9: the header processor is a total function of the header text, with no error
  among its results. For a processed line (stripped, not empty, its comment removed)
  without \<^verbatim>\<open>=\<close>: if it begins with \<^verbatim>\<open>%\<close>, the rest of the line, stripped, is
  stored as a key of the options with the empty string as its value; otherwise the
  whole line is stored so in the terminals. The key is in the final mapping, and its
  value there is the empty string unless a later line stores the same key again.
\<close>

theorem header_line_without_equals:
  assumes "processed_lines text = pre @ [l] @ post" and "CHR ''='' \<notin> set l"
  shows "l \<noteq> [] \<and> str_strip l = l
     \<and> (take 1 l = ''%'' \<longrightarrow>
          process_header_lines (pre @ [l]) Map.empty Map.empty =
            (process_header_lines pre Map.empty Map.empty)
              \<lparr>options := (options (process_header_lines pre Map.empty Map.empty))
                             (str_strip (drop 1 l) \<mapsto> [])\<rparr>
          \<and> str_strip (drop 1 l) \<in> dom (options (process_header text))
          \<and> ((\<forall>l' \<in> set post. header_key l' \<noteq> (True, str_strip (drop 1 l))) \<longrightarrow>
               options (process_header text) (str_strip (drop 1 l)) = Some []))
     \<and> (take 1 l \<noteq> ''%'' \<longrightarrow>
          process_header_lines (pre @ [l]) Map.empty Map.empty =
            (process_header_lines pre Map.empty Map.empty)
              \<lparr>terminals := (terminals (process_header_lines pre Map.empty Map.empty))
                               (l \<mapsto> [])\<rparr>
          \<and> l \<in> dom (terminals (process_header text))
          \<and> ((\<forall>l' \<in> set post. header_key l' \<noteq> (False, l)) \<longrightarrow>
               terminals (process_header text) l = Some []))"
proof -
  define h where "h = process_header_lines pre Map.empty Map.empty"
  have mem: "l \<in> set (processed_lines text)" using assms(1) by simp
  from processed_line_stripped [OF mem] have ne: "l \<noteq> []" and st: "str_strip l = l" by auto
  have d: "CHR ''='' \<notin> set (drop 1 l)" using assms(2) by (auto dest: in_set_dropD)
  have final: "process_header text =
      process_header_lines post (terminals (process_header_lines (pre @ [l]) Map.empty Map.empty))
        (options (process_header_lines (pre @ [l]) Map.empty Map.empty))"
    unfolding process_header_def assms(1)
    using process_header_lines_append [of "pre @ [l]" post] by simp
  have step: "process_header_lines (pre @ [l]) Map.empty Map.empty =
      process_header_lines [l] (terminals h) (options h)"
    unfolding h_def by (rule process_header_lines_append)
  show ?thesis
  proof (cases "take 1 l = ''%''")
    case True
    then have s: "process_header_lines (pre @ [l]) Map.empty Map.empty =
        h\<lparr>options := (options h)(str_strip (drop 1 l) \<mapsto> [])\<rparr>"
      unfolding step using kv_no_equals [OF d] by (simp add: add_opt_to_dict_def)
    have "str_strip (drop 1 l) \<in> dom (options (process_header text))"
      unfolding final s by (rule options_dom_grows) simp
    moreover have "options (process_header text) (str_strip (drop 1 l)) = Some []"
      if "\<forall>l' \<in> set post. header_key l' \<noteq> (True, str_strip (drop 1 l))"
      unfolding final s using options_untouched [OF that] by simp
    ultimately show ?thesis using True ne st s unfolding h_def by simp
  next
    case False
    then have s: "process_header_lines (pre @ [l]) Map.empty Map.empty =
        h\<lparr>terminals := (terminals h)(l \<mapsto> [])\<rparr>"
      unfolding step using kv_no_equals [OF assms(2)] by (simp add: add_opt_to_dict_def st)
    have "l \<in> dom (terminals (process_header text))"
      unfolding final s by (rule terminals_dom_grows) simp
    moreover have "terminals (process_header text) l = Some []"
      if "\<forall>l' \<in> set post. header_key l' \<noteq> (False, l)"
      unfolding final s using terminals_untouched [OF that] by simp
    ultimately show ?thesis using False ne st s unfolding h_def by simp
  qed
qed

theorem header_line_without_equals_witness:
  "processed_lines demo_header_text = [] @ [''FOO''] @ [''% bar'', ''FOO = x'']
   \<and> CHR ''='' \<notin> set ''FOO''
   \<and> ''FOO'' \<in> dom (terminals (process_header demo_header_text))
   \<and> processed_lines demo_header_text = [''FOO''] @ [''% bar''] @ [''FOO = x'']
   \<and> CHR ''='' \<notin> set ''% bar''
   \<and> options (process_header demo_header_text) ''bar'' = Some []"
proof -
  have p1: "processed_lines demo_header_text = [] @ [''FOO''] @ [''% bar'', ''FOO = x'']"
    by code_simp
  have p2: "processed_lines demo_header_text = [''FOO''] @ [''% bar''] @ [''FOO = x'']"
    by code_simp
  have e1: "CHR ''='' \<notin> set ''FOO''" and e2: "CHR ''='' \<notin> set ''% bar''" by simp_all
  have k: "str_strip (drop 1 ''% bar'') = ''bar''" by code_simp
  have later: "header_key ''FOO = x'' = (False, ''FOO'')" by code_simp
  from header_line_without_equals [OF p1 e1]
  have 1: "''FOO'' \<in> dom (terminals (process_header demo_header_text))" by simp
  from header_line_without_equals [OF p2 e2] k later
  have 2: "options (process_header demo_header_text) ''bar'' = Some []" by simp
  from p1 p2 e1 e2 1 2 show ?thesis by blast
qed

section \<open>First sets\<close>

text \<open>
  C1: the set computation misses a terminal that follows a prefix of nullable
  nonterminals. For the terminal \<^verbatim>\<open>X\<close> and the rules \<^verbatim>\<open>a := b X\<close>, \<^verbatim>\<open>b :=\<close>,
  \<^verbatim>\<open>c := a X\<close> the analysis ends with empty first sets, while \<^verbatim>\<open>X\<close> can begin
  \<^verbatim>\<open>a\<close>: the scan of \<^verbatim>\<open>b X\<close> passes the nullable \<^verbatim>\<open>b\<close> and stops at \<^verbatim>\<open>X\<close>
  without adding it.
\<close>

theorem first_set_misses_terminal:
  "parse_buffer demo_buffer = Some (Inr (process_header ''X = Tok_X '', demo_result, '' ''))
   \<and> map (\<lambda>p. (fst p, first (snd p))) demo_result = [(''a'', {||}), (''b'', {||}), (''c'', {||})]
   \<and> can_begin (process_header ''X = Tok_X '') demo_result ''a'' ''X''"
proof -
  have b: "derives_empty demo_result ''b''"
  proof (rule derives_empty.intros)
    show "map_of demo_result ''b'' =
        Some \<lparr>expansions = [[]], nullable = True, first = {||}, follow = {||}\<rparr>"
      by (simp add: demo_result_def)
    show "[] \<in> set (expansions
        \<lparr>expansions = [[]], nullable = True, first = {||}, follow = {||}\<rparr>)"
      by simp
    show "\<forall>e \<in> set []. derives_empty demo_result e" by simp
  qed
  have "can_begin (process_header ''X = Tok_X '') demo_result ''a'' ''X''"
  proof (rule can_begin.begins_with [of _ _ _ "[''b'']" _ "[]"])
    show "map_of demo_result ''a'' =
        Some \<lparr>expansions = [[''b'', ''X'']], nullable = False, first = {||}, follow = {||}\<rparr>"
      by (simp add: demo_result_def)
    show "[''b''] @ ''X'' # [] \<in> set (expansions
        \<lparr>expansions = [[''b'', ''X'']], nullable = False, first = {||}, follow = {||}\<rparr>)"
      by simp
    show "\<forall>e \<in> set [''b'']. derives_empty demo_result e" using b by simp
    show "terminals (process_header ''X = Tok_X '') ''X'' \<noteq> None" using demo_header_X by simp
  qed
  with demo_buffer_parsed show ?thesis by (simp add: demo_result_def)
qed

section \<open>Grammar errors\<close>

lemma messages_differ:
  assumes "CHR '' '' \<notin> set t"
  shows "''expansion for nonterminal '' @ n \<noteq> t @ '' is not defined as a terminal or nonterminal''"
proof
  assume eq: "''expansion for nonterminal '' @ n = t @ '' is not defined as a terminal or nonterminal''"
  have 1: "takeWhile (\<lambda>c. c \<noteq> CHR '' '') (''expansion for nonterminal '' @ n) = ''expansion''"
    by simp
  have 2: "takeWhile (\<lambda>c. c \<noteq> CHR '' '')
      (t @ '' is not defined as a terminal or nonterminal'') = t"
    using assms by (subst takeWhile_append2) auto
  have "t = takeWhile (\<lambda>c. c \<noteq> CHR '' '')
      (t @ '' is not defined as a terminal or nonterminal'')"
    by (rule 2 [symmetric])
  also have "\<dots> = takeWhile (\<lambda>c. c \<noteq> CHR '' '') (''expansion for nonterminal '' @ n)"
    by (simp only: eq)
  also have "\<dots> = ''expansion''" by (rule 1)
  finally have "t = ''expansion''" .
  with eq show False by simp
qed

lemma split_ws_acc_no_space:
  "\<forall>c \<in> set cur. \<not> isspace c \<Longrightarrow> \<forall>w \<in> set (split_ws_acc s cur). \<forall>c \<in> set w. \<not> isspace c"
proof (induction s arbitrary: cur)
  case Nil
  then show ?case by simp
next
  case (Cons a s)
  have e: "\<forall>w \<in> set (split_ws_acc s []). \<forall>c \<in> set w. \<not> isspace c"
    by (rule Cons.IH) simp
  show ?case
  proof (cases "isspace a")
    case True
    with e Cons.prems show ?thesis by auto
  next
    case False
    with Cons.prems have "\<forall>c \<in> set (cur @ [a]). \<not> isspace c" by simp
    from Cons.IH [OF this] False show ?thesis by simp
  qed
qed

lemma split_ws_no_space: "w \<in> set (split_ws s) \<Longrightarrow> CHR '' '' \<notin> set w"
proof -
  have "isspace CHR '' ''" by (simp add: isspace_def)
  moreover assume "w \<in> set (split_ws s)"
  ultimately show ?thesis
    using split_ws_acc_no_space [of "[]" s] by (auto simp: split_ws_def)
qed

lemma spaceless_add_expansion:
  "spaceless s \<or> s = new_Symbol \<Longrightarrow> spaceless (add_expansion s (split_ws v))"
  by (auto simp: spaceless_def add_expansion_def set_nullable_def new_Symbol_def Let_def
      dest: split_ws_no_space)

lemma process_expansion_lines_spaceless:
  "\<forall>p \<in> set exps. spaceless (snd p) \<Longrightarrow>
   \<forall>p \<in> set (process_expansion_lines ls exps). spaceless (snd p)"
proof (induction ls arbitrary: exps)
  case Nil
  then show ?case by simp
next
  case (Cons l ls)
  obtain k v where kv: "kv_with_sep l '':='' = (k, v)" by (cases "kv_with_sep l '':=''")
  define s where "s = (case map_of exps k of Some s \<Rightarrow> s | None \<Rightarrow> new_Symbol)"
  have "spaceless s \<or> s = new_Symbol"
    using Cons.prems by (auto simp: s_def split: option.splits dest!: map_of_SomeD)
  then have "spaceless (add_expansion s (split_ws v))" by (rule spaceless_add_expansion)
  with Cons.prems
  have "\<forall>p \<in> set (AList.update k (add_expansion s (split_ws v)) exps). spaceless (snd p)"
    using set_alist_update [of k "add_expansion s (split_ws v)" exps] by auto
  from Cons.IH [OF this] kv show ?case by (simp add: s_def Let_def)
qed

lemma undefined_reference_spaceless:
  "undefined_reference hdr (process_expansions e) t \<Longrightarrow> CHR '' '' \<notin> set t"
  using process_expansion_lines_spaceless [of "[]" "processed_lines e"]
  by (auto simp: undefined_reference_def process_expansions_def spaceless_def)

text \<open>
  C3: \<^verbatim>\<open>parse_buffer\<close> raises a \<^verbatim>\<open>GrammarError\<close> exactly when the buffer has three
  sections and, in them, a name with a production is also a terminal name or some
  token of some expansion is neither a terminal nor a nonterminal name. The message
  has one of two forms, each holding the offending name, and the condition of that
  form holds for that name; no message has both forms. When the error is raised, no
  result is returned.
\<close>

theorem grammar_error_iff:
  "((\<exists>msg. parse_buffer buffer = Some (Inl (GrammarError msg))) \<longleftrightarrow>
      (\<exists>h e u. str_split ''%%'' buffer = [h, e, u] \<and>
         ((\<exists>n. name_collision (process_header h) (process_expansions e) n) \<or>
          (\<exists>t. undefined_reference (process_header h) (process_expansions e) t))))
   \<and> (\<forall>msg. parse_buffer buffer = Some (Inl (GrammarError msg)) \<longrightarrow>
        (\<exists>h e u. str_split ''%%'' buffer = [h, e, u] \<and>
           ((\<exists>n. name_collision (process_header h) (process_expansions e) n \<and>
                 msg = ''parsegen: grammar error: expansion for nonterminal '' @ n) \<or>
            (\<exists>t. undefined_reference (process_header h) (process_expansions e) t \<and>
                 msg = ''parsegen: grammar error: '' @ t @
                         '' is not defined as a terminal or nonterminal''))))
   \<and> (\<forall>h e n t. undefined_reference (process_header h) (process_expansions e) t \<longrightarrow>
        ''parsegen: grammar error: expansion for nonterminal '' @ n \<noteq>
        ''parsegen: grammar error: '' @ t @ '' is not defined as a terminal or nonterminal'')
   \<and> ((\<exists>msg. parse_buffer buffer = Some (Inl (GrammarError msg))) \<longrightarrow>
        (\<forall>res. parse_buffer buffer \<noteq> Some (Inr res)))"
proof -
  have differ: "''parsegen: grammar error: expansion for nonterminal '' @ n \<noteq>
        ''parsegen: grammar error: '' @ t @ '' is not defined as a terminal or nonterminal''"
    if "undefined_reference (process_header h) (process_expansions e) t" for h e n t
    using messages_differ [OF undefined_reference_spaceless [OF that], of n] by simp
  show ?thesis
  proof (cases "length (str_split ''%%'' buffer) = 3")
    case True
    then obtain h e u where s: "str_split ''%%'' buffer = [h, e, u]"
      by (auto simp: length_Suc_conv numeral_3_eq_3)
    from grammar_error_sections [OF s] s differ show ?thesis by simp
  next
    case False
    from parse_buffer_bad_sections [OF this]
    have "parse_buffer buffer \<noteq> Some (Inl (GrammarError msg))" for msg
      by (simp add: parse_error_def)
    moreover from False have "str_split ''%%'' buffer \<noteq> [h, e, u]" for h e u by auto
    ultimately show ?thesis using differ by simp
  qed
qed

theorem grammar_error_iff_witness:
  "str_split ''%%'' '' %% main := TOKEN %% '' = ['' '', '' main := TOKEN '', '' '']
   \<and> parse_buffer '' %% main := TOKEN %% '' = Some (Inl (GrammarError
        ''parsegen: grammar error: TOKEN is not defined as a terminal or nonterminal''))
   \<and> (\<exists>t. undefined_reference (process_header '' '') (process_expansions '' main := TOKEN '') t)"
proof -
  have s: "str_split ''%%'' '' %% main := TOKEN %% '' = ['' '', '' main := TOKEN '', '' '']"
    by code_simp
  have "compute_sets_for_expansions (process_header '' '')
          (process_expansions '' main := TOKEN '') = Some (Inl (GrammarError
        ''parsegen: grammar error: TOKEN is not defined as a terminal or nonterminal''))"
    by code_simp
  with parse_buffer_three_sections [OF s]
  have p: "parse_buffer '' %% main := TOKEN %% '' = Some (Inl (GrammarError
        ''parsegen: grammar error: TOKEN is not defined as a terminal or nonterminal''))"
    by simp
  have "\<not> name_collision (process_header '' '') (process_expansions '' main := TOKEN '') n" for n
  proof -
    have "processed_lines '' '' = []" by code_simp
    then show ?thesis by (simp add: name_collision_def process_header_def)
  qed
  with grammar_error_iff [of "'' %% main := TOKEN %% ''"] p s show ?thesis by auto
qed

end
